theory Spec2Isabelle
  imports Main "HOL-Library.Word" "HOL-Library.Multiset"
begin

section \<open>Portable enumerations and their translation\<close>

text \<open>
  The enumerations \<open>comms::datatype_t\<close> and \<open>comms::op_t\<close> of the communicator
  interface. The source writes \<open>comms::CHAR\<close>, \<open>comms::SUM\<close>, ...; the constructors
  carry the namespace as a prefix.
\<close>

datatype datatype_t =
  comms_CHAR | comms_UINT8 | comms_INT | comms_UINT
  | comms_INT64 | comms_UINT64 | comms_FLOAT | comms_DOUBLE

datatype op_t = comms_SUM | comms_PROD | comms_MIN | comms_MAX

datatype ncclDataType_t =
  ncclChar | ncclUint8 | ncclInt | ncclUint32
  | ncclInt64 | ncclUint64 | ncclFloat | ncclDouble

datatype ncclRedOp_t = ncclSum | ncclProd | ncclMin | ncclMax

text \<open>\<open>getDatatypeSize\<close>: the \<open>sizeof\<close> of each element type, in bytes.\<close>

fun getDatatypeSize :: "datatype_t \<Rightarrow> nat" where
  "getDatatypeSize comms_CHAR = 1"
| "getDatatypeSize comms_UINT8 = 1"
| "getDatatypeSize comms_INT = 4"
| "getDatatypeSize comms_UINT = 4"
| "getDatatypeSize comms_INT64 = 8"
| "getDatatypeSize comms_UINT64 = 8"
| "getDatatypeSize comms_FLOAT = 4"
| "getDatatypeSize comms_DOUBLE = 8"

fun getNCCLDatatype :: "datatype_t \<Rightarrow> ncclDataType_t" where
  "getNCCLDatatype comms_CHAR = ncclChar"
| "getNCCLDatatype comms_UINT8 = ncclUint8"
| "getNCCLDatatype comms_INT = ncclInt"
| "getNCCLDatatype comms_UINT = ncclUint32"
| "getNCCLDatatype comms_INT64 = ncclInt64"
| "getNCCLDatatype comms_UINT64 = ncclUint64"
| "getNCCLDatatype comms_FLOAT = ncclFloat"
| "getNCCLDatatype comms_DOUBLE = ncclDouble"

fun getNCCLOp :: "op_t \<Rightarrow> ncclRedOp_t" where
  "getNCCLOp comms_SUM = ncclSum"
| "getNCCLOp comms_PROD = ncclProd"
| "getNCCLOp comms_MIN = ncclMin"
| "getNCCLOp comms_MAX = ncclMax"

definition UCX_ENABLED :: bool where
  "UCX_ENABLED = True"

definition ucx_enabled :: bool where
  "ucx_enabled = UCX_ENABLED"


section \<open>Status codes and failures\<close>

text \<open>
  The result codes of the CUDA runtime and of NCCL. Only the codes the source compares
  against are named; every other code is an \<open>Other\<close> value.
\<close>

datatype cudaError_t = cudaSuccess | cudaErrorNotReady | cudaErrorOther nat

datatype ncclResult_t = ncclSuccess | ncclFailure nat

text \<open>\<open>status_t\<close>, the three results of \<open>syncStream\<close>.\<close>

datatype status_t = commStatusSuccess | commStatusError | commStatusAbort

text \<open>Addresses and opaque handles are 64-bit values; \<open>nullptr\<close> is 0.\<close>

type_synonym ptr = "64 word"

text \<open>
  Modelled from the spec: \<open>request_t\<close>, whose declaration is in \<open>comms.hpp\<close> and not
  among the sources. A request identifier is a process-local integer drawn from a counter;
  it is taken as an unsigned 32-bit integer, whose increment wraps.
\<close>

type_synonym request_t = "32 word"

text \<open>
  Modelled from the spec: the macros \<open>ASSERT\<close> and \<open>CUDA_CHECK\<close>, which are defined
  outside the sources. Every error kind surfaces to the caller as a hard failure of the
  current call: an \<open>ASSERT\<close>, \<open>NCCL_CHECK\<close> or \<open>CUDA_CHECK\<close> that does not hold ends the
  call with a failure, the statements after it are not executed, and what the call did
  before stays done. One constructor stands for each such place of the source.
\<close>

datatype error =
    CudaCheckFailed cudaError_t
  | NcclCheckFailed ncclResult_t
  | CommSplitNotSupported
  | SyncStreamFailed
  | NotBuiltWithUCX
  | NotInitializedForP2P
  | UCXNotInitialized
  | InvalidRequest request_t
  | TimedOut
  | RequestNotValidPointer
  | RequestError
  | CompletedNotValid int
  | HandlerFailed


section \<open>The device side: CUDA runtime and NCCL\<close>

text \<open>
  The CUDA runtime and NCCL are outside the program. Each call into them is recorded,
  with its arguments and the code it returned, in the order of issue.
\<close>

datatype event =
    CudaMemsetAsync ptr int nat ptr cudaError_t
  | NcclAllReduce ptr ptr int ncclDataType_t ncclRedOp_t ptr ptr ncclResult_t
  | NcclBroadcast ptr ptr int ncclDataType_t int ptr ptr ncclResult_t
  | NcclReduce ptr ptr int ncclDataType_t ncclRedOp_t int ptr ptr ncclResult_t
  | NcclAllGather ptr ptr int ncclDataType_t ptr ptr ncclResult_t
  | NcclReduceScatter ptr ptr int ncclDataType_t ncclRedOp_t ptr ptr ncclResult_t
  | CudaStreamQuery ptr cudaError_t
  | NcclCommGetAsyncError ptr ncclResult_t ncclResult_t
  | NcclCommAbort ptr ncclResult_t

text \<open>
  What the device side answers is given in advance, one queue of answers for each kind of
  call; a call takes the next answer of its queue. A call that finds its queue empty has
  no answer: the operation making it has no result (\<open>None\<close>), which also stands for an
  operation that never returns.
\<close>

record device =
  memset_results :: "cudaError_t list"
  collective_results :: "ncclResult_t list"
  stream_queries :: "cudaError_t list"
  async_errors :: "(ncclResult_t \<times> ncclResult_t) list"
  abort_results :: "ncclResult_t list"
  calls :: "event list"

definition cudaMemsetAsync ::
  "ptr \<Rightarrow> int \<Rightarrow> nat \<Rightarrow> ptr \<Rightarrow> device \<Rightarrow> (cudaError_t \<times> device) option" where
  "cudaMemsetAsync devPtr v n strm d =
     (case memset_results d of
        [] \<Rightarrow> None
      | e # es \<Rightarrow>
          Some (e, d\<lparr>memset_results := es,
                     calls := calls d @ [CudaMemsetAsync devPtr v n strm e]\<rparr>))"

text \<open>
  A collective call of NCCL: \<open>mk\<close> is the call with its arguments, still waiting for
  the result code.
\<close>

definition nccl_collective ::
  "(ncclResult_t \<Rightarrow> event) \<Rightarrow> device \<Rightarrow> (ncclResult_t \<times> device) option" where
  "nccl_collective mk d =
     (case collective_results d of
        [] \<Rightarrow> None
      | r # rs \<Rightarrow>
          Some (r, d\<lparr>collective_results := rs, calls := calls d @ [mk r]\<rparr>))"

definition cudaStreamQuery :: "ptr \<Rightarrow> device \<Rightarrow> (cudaError_t \<times> device) option" where
  "cudaStreamQuery strm d =
     (case stream_queries d of
        [] \<Rightarrow> None
      | e # es \<Rightarrow>
          Some (e, d\<lparr>stream_queries := es, calls := calls d @ [CudaStreamQuery strm e]\<rparr>))"

definition ncclCommGetAsyncError ::
  "ptr \<Rightarrow> device \<Rightarrow> ((ncclResult_t \<times> ncclResult_t) \<times> device) option" where
  "ncclCommGetAsyncError comm d =
     (case async_errors d of
        [] \<Rightarrow> None
      | (r, a) # ras \<Rightarrow>
          Some ((r, a), d\<lparr>async_errors := ras,
                          calls := calls d @ [NcclCommGetAsyncError comm r a]\<rparr>))"

definition ncclCommAbort :: "ptr \<Rightarrow> device \<Rightarrow> (ncclResult_t \<times> device) option" where
  "ncclCommAbort comm d =
     (case abort_results d of
        [] \<Rightarrow> None
      | r # rs \<Rightarrow>
          Some (r, d\<lparr>abort_results := rs, calls := calls d @ [NcclCommAbort comm r]\<rparr>))"

text \<open>
  \<open>NCCL_CHECK(call)\<close>: the call's result code must be \<open>ncclSuccess\<close>.
\<close>

definition NCCL_CHECK ::
  "(ncclResult_t \<times> device) option \<Rightarrow> ((error + unit) \<times> device) option" where
  "NCCL_CHECK call =
     (case call of
        None \<Rightarrow> None
      | Some (status, d) \<Rightarrow>
          Some (if ncclSuccess = status then Inr () else Inl (NcclCheckFailed status), d))"

text \<open>
  Modelled from the spec: \<open>CUDA_CHECK(call)\<close>, defined outside the sources, as the
  counterpart of \<open>NCCL_CHECK\<close> for the CUDA runtime: the call's result code must be
  \<open>cudaSuccess\<close>.
\<close>

definition CUDA_CHECK ::
  "(cudaError_t \<times> device) option \<Rightarrow> ((error + unit) \<times> device) option" where
  "CUDA_CHECK call =
     (case call of
        None \<Rightarrow> None
      | Some (status, d) \<Rightarrow>
          Some (if cudaSuccess = status then Inr () else Inl (CudaCheckFailed status), d))"



section \<open>The communicator\<close>

text \<open>
  \<open>struct ucp_request\<close> is declared in \<open>ucp_helper.hpp\<close>, outside the sources; these
  are the members the communicator reads. \<open>req\<close> is the transport's own request, whose
  \<open>completed\<close> flag lives in the transport's memory.
\<close>

record ucp_request =
  req :: ptr
  needs_release :: bool
  other_rank :: int
  is_send_request :: bool

text \<open>
  The members of \<open>class std_comms\<close>. \<open>_ucp_eps\<close> is a raw array of endpoints that the
  source indexes without a bound; it is the function from an index to what the caller's
  memory holds there. \<open>_requests_in_flight\<close> is an \<open>unordered_map\<close>, \<open>_free_requests\<close> an
  \<open>unordered_set\<close>.
\<close>

record std_comms =
  nccl_comm :: ptr
  stream :: ptr
  sendbuff :: ptr
  recvbuff :: ptr
  size_m :: int
  rank_m :: int
  p2p_enabled :: bool
  ucp_worker :: ptr
  ucp_eps :: "int \<Rightarrow> ptr"
  next_request_id :: request_t
  requests_in_flight :: "request_t \<rightharpoonup> ucp_request"
  free_requests :: "request_t set"

text \<open>
  The two constructors. \<open>initialize()\<close> creates the stream and allocates the two scratch
  buffers; the three handles it obtained are the argument \<open>bufs\<close> (if one of its CUDA
  calls fails, no communicator is constructed). The constructor for collective-only
  operation initialises neither \<open>_ucp_worker\<close> nor \<open>_next_request_id\<close>: \<open>worker0\<close> and
  \<open>next0\<close> are the values these members happen to hold.
\<close>

definition std_comms_p2p ::
  "ptr \<Rightarrow> ptr \<Rightarrow> (int \<Rightarrow> ptr) \<Rightarrow> int \<Rightarrow> int \<Rightarrow> ptr \<times> ptr \<times> ptr \<Rightarrow> std_comms" where
  "std_comms_p2p comm worker eps sz rnk bufs =
     (case bufs of (strm, sbuf, rbuf) \<Rightarrow>
        \<lparr>nccl_comm = comm, stream = strm, sendbuff = sbuf, recvbuff = rbuf,
         size_m = sz, rank_m = rnk, p2p_enabled = True, ucp_worker = worker,
         ucp_eps = eps, next_request_id = 0,
         requests_in_flight = Map.empty, free_requests = {}\<rparr>)"

definition std_comms_coll ::
  "ptr \<Rightarrow> int \<Rightarrow> int \<Rightarrow> ptr \<times> ptr \<times> ptr \<Rightarrow> ptr \<Rightarrow> request_t \<Rightarrow> std_comms" where
  "std_comms_coll comm sz rnk bufs worker0 next0 =
     (case bufs of (strm, sbuf, rbuf) \<Rightarrow>
        \<lparr>nccl_comm = comm, stream = strm, sendbuff = sbuf, recvbuff = rbuf,
         size_m = sz, rank_m = rnk, p2p_enabled = False, ucp_worker = worker0,
         ucp_eps = (\<lambda>_. 0), next_request_id = next0,
         requests_in_flight = Map.empty, free_requests = {}\<rparr>)"

definition getSize :: "std_comms \<Rightarrow> int" where
  "getSize c = size_m c"

definition getRank :: "std_comms \<Rightarrow> int" where
  "getRank c = rank_m c"

text \<open>
  \<open>commSplit\<close>: the body is the single statement \<open>ASSERT(false, ...)\<close>. The method is
  \<open>const\<close> and touches no member; the communicator after the call is the one before.
\<close>

definition commSplit :: "std_comms \<Rightarrow> int \<Rightarrow> int \<Rightarrow> (error + std_comms) \<times> std_comms" where
  "commSplit c color key = (Inl CommSplitNotSupported, c)"


section \<open>Collective operations\<close>

definition allreduce ::
  "std_comms \<Rightarrow> ptr \<Rightarrow> ptr \<Rightarrow> int \<Rightarrow> datatype_t \<Rightarrow> op_t \<Rightarrow> ptr \<Rightarrow> device
     \<Rightarrow> ((error + unit) \<times> device) option" where
  "allreduce c sendbuf recvbuf cnt datatype op strm d =
     NCCL_CHECK (nccl_collective
       (NcclAllReduce sendbuf recvbuf cnt (getNCCLDatatype datatype) (getNCCLOp op)
          (nccl_comm c) strm) d)"

definition bcast ::
  "std_comms \<Rightarrow> ptr \<Rightarrow> int \<Rightarrow> datatype_t \<Rightarrow> int \<Rightarrow> ptr \<Rightarrow> device
     \<Rightarrow> ((error + unit) \<times> device) option" where
  "bcast c buff cnt datatype root strm d =
     NCCL_CHECK (nccl_collective
       (NcclBroadcast buff buff cnt (getNCCLDatatype datatype) root (nccl_comm c) strm) d)"

definition reduce ::
  "std_comms \<Rightarrow> ptr \<Rightarrow> ptr \<Rightarrow> int \<Rightarrow> datatype_t \<Rightarrow> op_t \<Rightarrow> int \<Rightarrow> ptr \<Rightarrow> device
     \<Rightarrow> ((error + unit) \<times> device) option" where
  "reduce c sendbuf recvbuf cnt datatype op root strm d =
     NCCL_CHECK (nccl_collective
       (NcclReduce sendbuf recvbuf cnt (getNCCLDatatype datatype) (getNCCLOp op) root
          (nccl_comm c) strm) d)"

definition allgather ::
  "std_comms \<Rightarrow> ptr \<Rightarrow> ptr \<Rightarrow> int \<Rightarrow> datatype_t \<Rightarrow> ptr \<Rightarrow> device
     \<Rightarrow> ((error + unit) \<times> device) option" where
  "allgather c sendbuf recvbuf sendcount datatype strm d =
     NCCL_CHECK (nccl_collective
       (NcclAllGather sendbuf recvbuf sendcount (getNCCLDatatype datatype)
          (nccl_comm c) strm) d)"

definition reducescatter ::
  "std_comms \<Rightarrow> ptr \<Rightarrow> ptr \<Rightarrow> int \<Rightarrow> datatype_t \<Rightarrow> op_t \<Rightarrow> ptr \<Rightarrow> device
     \<Rightarrow> ((error + unit) \<times> device) option" where
  "reducescatter c sendbuf recvbuf recvcount datatype op strm d =
     NCCL_CHECK (nccl_collective
       (NcclReduceScatter sendbuf recvbuf recvcount (getNCCLDatatype datatype)
          (getNCCLOp op) (nccl_comm c) strm) d)"

text \<open>
  \<open>allgatherv\<close>. \<open>recvcounts\<close> and \<open>displs\<close> are raw arrays, read at \<open>root\<close> without a
  bound: each is the function from an index to the \<open>int\<close> stored there. The receive
  address is \<open>static_cast<char *>(recvbuf) + displs[root] * getDatatypeSize(datatype)\<close>:
  the \<open>int\<close> is converted to \<open>size_t\<close> and the product and the sum are taken modulo
  \<open>2^64\<close>.
\<close>

function allgatherv_loop ::
  "std_comms \<Rightarrow> ptr \<Rightarrow> ptr \<Rightarrow> (nat \<Rightarrow> int) \<Rightarrow> (nat \<Rightarrow> int) \<Rightarrow> datatype_t \<Rightarrow> ptr \<Rightarrow> int
     \<Rightarrow> device \<Rightarrow> ((error + unit) \<times> device) option" where
  "allgatherv_loop c sendbuf recvbuf recvcounts displs datatype strm root d =
     (if root < size_m c then
        (case NCCL_CHECK (nccl_collective
                (NcclBroadcast sendbuf
                   (recvbuf + of_int (displs (nat root)) * of_nat (getDatatypeSize datatype))
                   (recvcounts (nat root)) (getNCCLDatatype datatype) root (nccl_comm c) strm)
                d) of
           None \<Rightarrow> None
         | Some (Inl e, d') \<Rightarrow> Some (Inl e, d')
         | Some (Inr _, d') \<Rightarrow>
             allgatherv_loop c sendbuf recvbuf recvcounts displs datatype strm (root + 1) d')
      else Some (Inr (), d))"
  by pat_completeness auto
termination
  by (relation "measure (\<lambda>(c, sendbuf, recvbuf, recvcounts, displs, datatype, strm, root, d).
        nat (size_m c - root))") auto

definition allgatherv ::
  "std_comms \<Rightarrow> ptr \<Rightarrow> ptr \<Rightarrow> (nat \<Rightarrow> int) \<Rightarrow> (nat \<Rightarrow> int) \<Rightarrow> datatype_t \<Rightarrow> ptr
     \<Rightarrow> device \<Rightarrow> ((error + unit) \<times> device) option" where
  "allgatherv c sendbuf recvbuf recvcounts displs datatype strm d =
     allgatherv_loop c sendbuf recvbuf recvcounts displs datatype strm 0 d"


section \<open>Stream synchronisation and barrier\<close>

text \<open>
  \<open>syncStream\<close>: one round of the \<open>while (1)\<close> loop for each answer of the stream query.
  \<open>pthread_yield()\<close> at the end of a round changes nothing the communicator sees.
\<close>

function syncStream :: "std_comms \<Rightarrow> ptr \<Rightarrow> device \<Rightarrow> (status_t \<times> device) option" where
  "syncStream c strm d =
     (case cudaStreamQuery strm d of
        None \<Rightarrow> None
      | Some (cudaErr, d1) \<Rightarrow>
          if cudaErr = cudaSuccess then Some (commStatusSuccess, d1)
          else if cudaErr \<noteq> cudaErrorNotReady then Some (commStatusError, d1)
          else
            (case ncclCommGetAsyncError (nccl_comm c) d1 of
               None \<Rightarrow> None
             | Some ((ncclErr, ncclAsyncErr), d2) \<Rightarrow>
                 if ncclErr \<noteq> ncclSuccess then Some (commStatusError, d2)
                 else if ncclAsyncErr \<noteq> ncclSuccess then
                   (case ncclCommAbort (nccl_comm c) d2 of
                      None \<Rightarrow> None
                    | Some (ncclErr', d3) \<Rightarrow>
                        if ncclErr' \<noteq> ncclSuccess then Some (commStatusAbort, d3)
                        else syncStream c strm d3)
                 else syncStream c strm d2))"
  by pat_completeness auto
termination
  by (relation "measure (\<lambda>(c, strm, d). length (stream_queries d))")
    (auto simp: cudaStreamQuery_def ncclCommGetAsyncError_def ncclCommAbort_def
          split: list.splits)

declare syncStream.simps [simp del]
declare allgatherv_loop.simps [simp del]

definition barrier :: "std_comms \<Rightarrow> device \<Rightarrow> ((error + unit) \<times> device) option" where
  "barrier c d =
     (case CUDA_CHECK (cudaMemsetAsync (sendbuff c) 1 4 (stream c) d) of
        None \<Rightarrow> None
      | Some (Inl e, d1) \<Rightarrow> Some (Inl e, d1)
      | Some (Inr _, d1) \<Rightarrow>
          (case CUDA_CHECK (cudaMemsetAsync (recvbuff c) 1 4 (stream c) d1) of
             None \<Rightarrow> None
           | Some (Inl e, d2) \<Rightarrow> Some (Inl e, d2)
           | Some (Inr _, d2) \<Rightarrow>
               (case allreduce c (sendbuff c) (recvbuff c) 1 comms_INT comms_SUM (stream c) d2 of
                  None \<Rightarrow> None
                | Some (Inl e, d3) \<Rightarrow> Some (Inl e, d3)
                | Some (Inr _, d3) \<Rightarrow>
                    (case syncStream c (stream c) d3 of
                       None \<Rightarrow> None
                     | Some (st, d4) \<Rightarrow>
                         Some (if st = commStatusSuccess then Inr ()
                               else Inl SyncStreamFailed, d4)))))"



section \<open>The message transport\<close>

text \<open>
  The UCX worker and the handler \<open>comms_ucp_handler\<close> of \<open>ucp_helper.hpp\<close> are outside
  the sources. As on the device side, their answers are given in advance:
  \<^item> \<open>clock\<close>: the values \<open>time(NULL)\<close> returns, in order;
  \<^item> \<open>progress_results\<close>: for each call of \<open>ucp_progress\<close>, the count it returns and the
    \<open>completed\<close> flags the transport's callbacks wrote while it ran;
  \<^item> \<open>request_results\<close>: for each \<open>ucp_isend\<close> or \<open>ucp_irecv\<close>, the request record as the
    handler filled it, or \<open>None\<close> when the handler ended the call itself;
  \<^item> \<open>completed\<close>: the transport's memory, \<open>req->req->completed\<close> for each request pointer;
  \<^item> \<open>UCS_PTR_IS_PTR\<close>, \<open>UCS_PTR_IS_ERR\<close>: the two macros of the UCX headers;
  \<^item> \<open>default_tag_mask\<close>: the constant of \<open>ucp_helper.hpp\<close>;
  \<^item> \<open>posted\<close> and \<open>freed\<close>: the sends and receives issued and the requests handed to
    \<open>free_ucp_request\<close>, in order.
\<close>

datatype post =
    UcpIsend ptr ptr int int ptr int
  | UcpIrecv ptr ptr ptr int int ptr int

record ucx =
  clock :: "int list"
  progress_results :: "(nat \<times> (ptr \<times> int) list) list"
  request_results :: "ucp_request option list"
  completed :: "ptr \<Rightarrow> int"
  UCS_PTR_IS_PTR :: "ptr \<Rightarrow> bool"
  UCS_PTR_IS_ERR :: "ptr \<Rightarrow> bool"
  default_tag_mask :: ptr
  posted :: "post list"
  freed :: "ucp_request list"

definition time_NULL :: "ucx \<Rightarrow> (int \<times> ucx) option" where
  "time_NULL w =
     (case clock w of
        [] \<Rightarrow> None
      | t # ts \<Rightarrow> Some (t, w\<lparr>clock := ts\<rparr>))"

fun write_flags :: "(ptr \<times> int) list \<Rightarrow> (ptr \<Rightarrow> int) \<Rightarrow> (ptr \<Rightarrow> int)" where
  "write_flags [] m = m"
| "write_flags ((p, v) # pvs) m = write_flags pvs (m(p := v))"

definition ucp_progress :: "ptr \<Rightarrow> ucx \<Rightarrow> (nat \<times> ucx) option" where
  "ucp_progress worker w =
     (case progress_results w of
        [] \<Rightarrow> None
      | (n, writes) # rest \<Rightarrow>
          Some (n, w\<lparr>progress_results := rest,
                     completed := write_flags writes (completed w)\<rparr>))"

definition ucp_isend ::
  "ptr \<Rightarrow> ptr \<Rightarrow> int \<Rightarrow> int \<Rightarrow> ptr \<Rightarrow> int \<Rightarrow> ucx \<Rightarrow> (ucp_request option \<times> ucx) option" where
  "ucp_isend ep_ptr buf sz tag tag_mask rnk w =
     (case request_results w of
        [] \<Rightarrow> None
      | r # rs \<Rightarrow>
          Some (r, w\<lparr>request_results := rs,
                     posted := posted w @ [UcpIsend ep_ptr buf sz tag tag_mask rnk]\<rparr>))"

definition ucp_irecv ::
  "ptr \<Rightarrow> ptr \<Rightarrow> ptr \<Rightarrow> int \<Rightarrow> int \<Rightarrow> ptr \<Rightarrow> int \<Rightarrow> ucx
     \<Rightarrow> (ucp_request option \<times> ucx) option" where
  "ucp_irecv worker ep_ptr buf sz tag tag_mask sender_rank w =
     (case request_results w of
        [] \<Rightarrow> None
      | r # rs \<Rightarrow>
          Some (r, w\<lparr>request_results := rs,
                     posted := posted w @
                       [UcpIrecv worker ep_ptr buf sz tag tag_mask sender_rank]\<rparr>))"

definition free_ucp_request :: "ucp_request \<Rightarrow> ucx \<Rightarrow> ucx" where
  "free_ucp_request r w = w\<lparr>freed := freed w @ [r]\<rparr>"


section \<open>Request identifiers\<close>

text \<open>
  \<open>get_request_id\<close>. \<open>_free_requests.begin()\<close> is the first element of an
  \<open>unordered_set\<close> in its iteration order, which the language leaves open: \<open>bgn\<close> is the
  function that yields it.
\<close>

definition get_request_id ::
  "(request_t set \<Rightarrow> request_t) \<Rightarrow> std_comms \<Rightarrow> request_t \<times> std_comms" where
  "get_request_id bgn c =
     (if free_requests c = {} then
        (next_request_id c, c\<lparr>next_request_id := next_request_id c + 1\<rparr>)
      else
        (let it = bgn (free_requests c)
         in (it, c\<lparr>free_requests := free_requests c - {it}\<rparr>)))"

text \<open>\<open>unordered_map::insert\<close> keeps the old entry when the key is already present.\<close>

definition map_insert :: "('k \<rightharpoonup> 'v) \<Rightarrow> 'k \<Rightarrow> 'v \<Rightarrow> ('k \<rightharpoonup> 'v)" where
  "map_insert m k v = (if k \<in> dom m then m else m(k \<mapsto> v))"


section \<open>Point-to-point operations\<close>

text \<open>
  Each operation returns its result (a failure, or the value), the communicator as the
  call left it and the transport as the call left it: a failing \<open>ASSERT\<close> undoes nothing.
\<close>

definition isend ::
  "(request_t set \<Rightarrow> request_t) \<Rightarrow> std_comms \<Rightarrow> ptr \<Rightarrow> int \<Rightarrow> int \<Rightarrow> int \<Rightarrow> ucx
     \<Rightarrow> ((error + request_t) \<times> std_comms \<times> ucx) option" where
  "isend bgn c buf sz dest tag w =
     (if \<not> UCX_ENABLED then Some (Inl NotBuiltWithUCX, c, w)
      else if \<not> p2p_enabled c then Some (Inl NotInitializedForP2P, c, w)
      else if \<not> ucp_worker c \<noteq> 0 then Some (Inl UCXNotInitialized, c, w)
      else
        (case get_request_id bgn c of
           (request, c1) \<Rightarrow>
             (case ucp_isend (ucp_eps c1 dest) buf sz tag (default_tag_mask w) (getRank c1) w of
                None \<Rightarrow> None
              | Some (None, w1) \<Rightarrow> Some (Inl HandlerFailed, c1, w1)
              | Some (Some ucp_req, w1) \<Rightarrow>
                  Some (Inr request,
                        c1\<lparr>requests_in_flight :=
                             map_insert (requests_in_flight c1) request ucp_req\<rparr>,
                        w1))))"

definition irecv ::
  "(request_t set \<Rightarrow> request_t) \<Rightarrow> std_comms \<Rightarrow> ptr \<Rightarrow> int \<Rightarrow> int \<Rightarrow> int \<Rightarrow> ucx
     \<Rightarrow> ((error + request_t) \<times> std_comms \<times> ucx) option" where
  "irecv bgn c buf sz source tag w =
     (if \<not> UCX_ENABLED then Some (Inl NotBuiltWithUCX, c, w)
      else if \<not> p2p_enabled c then Some (Inl NotInitializedForP2P, c, w)
      else if \<not> ucp_worker c \<noteq> 0 then Some (Inl UCXNotInitialized, c, w)
      else
        (case get_request_id bgn c of
           (request, c1) \<Rightarrow>
             (case ucp_irecv (ucp_worker c1) (ucp_eps c1 source) buf sz tag
                     (default_tag_mask w) source w of
                None \<Rightarrow> None
              | Some (None, w1) \<Rightarrow> Some (Inl HandlerFailed, c1, w1)
              | Some (Some ucp_req, w1) \<Rightarrow>
                  Some (Inr request,
                        c1\<lparr>requests_in_flight :=
                             map_insert (requests_in_flight c1) request ucp_req\<rparr>,
                        w1))))"

text \<open>
  \<open>waitall\<close>, first loop: each identifier of the array is looked up, its request is
  pushed on \<open>requests\<close>, the identifier is inserted into \<open>_free_requests\<close> and erased from
  \<open>_requests_in_flight\<close>.
\<close>

fun waitall_release ::
  "std_comms \<Rightarrow> request_t list \<Rightarrow> ucp_request list
     \<Rightarrow> (error + ucp_request list) \<times> std_comms" where
  "waitall_release c [] requests = (Inr requests, c)"
| "waitall_release c (x # xs) requests =
     (case requests_in_flight c x of
        None \<Rightarrow> (Inl (InvalidRequest x), c)
      | Some ucp_req \<Rightarrow>
          waitall_release
            (c\<lparr>free_requests := insert x (free_requests c),
               requests_in_flight := (requests_in_flight c)(x := None)\<rparr>)
            xs (requests @ [ucp_req]))"

text \<open>\<open>while (ucp_progress(_ucp_worker) != 0) restart = true;\<close>\<close>

function progress_loop :: "ptr \<Rightarrow> bool \<Rightarrow> ucx \<Rightarrow> (bool \<times> ucx) option" where
  "progress_loop worker restart w =
     (case ucp_progress worker w of
        None \<Rightarrow> None
      | Some (n, w1) \<Rightarrow>
          if n \<noteq> 0 then progress_loop worker True w1 else Some (restart, w1))"
  by pat_completeness auto
termination
  by (relation "measure (\<lambda>(worker, restart, w). length (progress_results w))")
    (auto simp: ucp_progress_def split: list.splits)

declare progress_loop.simps [simp del]

text \<open>
  The \<open>for\<close> loop over the vector \<open>requests\<close>: \<open>kept\<close> are the elements before the
  iterator, the list argument those from the iterator on. The result is the vector after
  the loop and the value of \<open>start\<close>.
\<close>

fun waitall_sweep ::
  "std_comms \<Rightarrow> ucp_request list \<Rightarrow> ucp_request list \<Rightarrow> int \<Rightarrow> ucx
     \<Rightarrow> ((error + ucp_request list \<times> int) \<times> ucx) option" where
  "waitall_sweep c kept [] start w = Some (Inr (kept, start), w)"
| "waitall_sweep c kept (r # rest) start w =
     (case progress_loop (ucp_worker c) False w of
        None \<Rightarrow> None
      | Some (restart, w1) \<Rightarrow>
          if needs_release r \<and> \<not> UCS_PTR_IS_PTR w1 (req r) then
            Some (Inl RequestNotValidPointer, w1)
          else if needs_release r \<and> UCS_PTR_IS_ERR w1 (req r) then
            Some (Inl RequestError, w1)
          else if needs_release r
                 \<and> \<not> (completed w1 (req r) = 1 \<or> completed w1 (req r) = 0) then
            Some (Inl (CompletedNotValid (completed w1 (req r))), w1)
          else if \<not> needs_release r \<or> completed w1 (req r) = 1 then
            (case time_NULL (free_ucp_request r w1) of
               None \<Rightarrow> None
             | Some (t, w2) \<Rightarrow> waitall_sweep c kept rest t w2)
          else if restart then
            (case time_NULL w1 of
               None \<Rightarrow> None
             | Some (t, w2) \<Rightarrow> waitall_sweep c (kept @ [r]) rest t w2)
          else waitall_sweep c (kept @ [r]) rest start w1)"

lemma progress_loop_clock:
  "progress_loop worker restart w = Some (b, w') \<Longrightarrow> clock w' = clock w"
proof (induction worker restart w rule: progress_loop.induct)
  case (1 worker restart w)
  show ?case
  proof (cases "ucp_progress worker w")
    case None
    with "1.prems" show ?thesis by (simp add: progress_loop.simps [of worker restart w])
  next
    case (Some a)
    obtain n w1 where a: "a = (n, w1)" by (cases a)
    have c1: "clock w1 = clock w"
      using Some a by (auto simp: ucp_progress_def split: list.splits)
    show ?thesis
    proof (cases "n = 0")
      case True
      with "1.prems" Some a c1 show ?thesis
        by (simp add: progress_loop.simps [of worker restart w])
    next
      case False
      with "1.prems" Some a have pl: "progress_loop worker True w1 = Some (b, w')"
        by (simp add: progress_loop.simps [of worker restart w])
      from "1.IH" [OF Some a [symmetric] False pl] c1 show ?thesis by simp
    qed
  qed
qed


lemma time_NULL_clock:
  "time_NULL w = Some (t, w') \<Longrightarrow> clock w = t # clock w'"
  by (auto simp: time_NULL_def split: list.splits)

lemma time_NULL_length:
  "time_NULL w = Some (t, w') \<Longrightarrow> Suc (length (clock w')) = length (clock w)"
  by (auto simp: time_NULL_def split: list.splits)

lemma waitall_sweep_clock:
  "waitall_sweep c kept rs start w = Some (res, w') \<Longrightarrow> length (clock w') \<le> length (clock w)"
proof (induction rs arbitrary: kept start w)
  case Nil
  then show ?case by simp
next
  case (Cons r rest)
  from Cons.prems obtain restart w1 where
    pl: "progress_loop (ucp_worker c) False w = Some (restart, w1)"
    by (auto split: option.splits)
  have c1: "clock w1 = clock w"
    using progress_loop_clock [OF pl] .
  have cf: "clock (free_ucp_request r w1) = clock w"
    using c1 by (simp add: free_ucp_request_def)
  from Cons.prems pl c1 cf show ?case
    by (auto split: if_splits option.splits
             dest!: Cons.IH time_NULL_length)
qed

text \<open>
  The \<open>while (requests.size() > 0)\<close> loop. Each round reads the time, so the rounds are
  bounded by the length of \<open>clock\<close>.
\<close>

function waitall_poll ::
  "std_comms \<Rightarrow> ucp_request list \<Rightarrow> int \<Rightarrow> ucx \<Rightarrow> ((error + unit) \<times> ucx) option" where
  "waitall_poll c requests start w =
     (if length requests > 0 then
        (case time_NULL w of
           None \<Rightarrow> None
         | Some (now, w1) \<Rightarrow>
             if \<not> now - start < 10 then Some (Inl TimedOut, w1)
             else
               (case waitall_sweep c [] requests start w1 of
                  None \<Rightarrow> None
                | Some (Inl e, w2) \<Rightarrow> Some (Inl e, w2)
                | Some (Inr (requests', start'), w2) \<Rightarrow> waitall_poll c requests' start' w2))
      else Some (Inr (), w))"
  by pat_completeness auto
termination
proof (relation "measure (\<lambda>(c, requests, start, w). length (clock w))")
  show "wf (measure (\<lambda>(c, requests, start, w). length (clock w)))"
    by simp
next
  fix c :: std_comms and requests :: "ucp_request list" and start :: int and w :: ucx
    and x2 x1 w1 x2a x1a w2 b requests' start'
  assume t: "time_NULL w = Some x2" "(x1, w1) = x2"
    and s: "waitall_sweep c [] requests start w1 = Some x2a" "(x1a, w2) = x2a"
  from t have "clock w = x1 # clock w1"
    by (auto dest: time_NULL_clock)
  moreover from s have "length (clock w2) \<le> length (clock w1)"
    by (auto dest: waitall_sweep_clock)
  ultimately show "((c, requests', start', w2), c, requests, start, w)
                     \<in> measure (\<lambda>(c, requests, start, w). length (clock w))"
    by simp
qed

declare waitall_poll.simps [simp del]

text \<open>
  \<open>waitall(count, array_of_requests)\<close>: the list holds the first \<open>count\<close> entries of the
  array. After the three checks the time is read into \<open>start\<close>; the first loop releases
  the identifiers and the second polls the requests it collected. The communicator the call
  ends with is the one the first loop left: the polling loop touches no member.
\<close>

definition waitall ::
  "std_comms \<Rightarrow> request_t list \<Rightarrow> ucx \<Rightarrow> ((error + unit) \<times> std_comms \<times> ucx) option" where
  "waitall c array_of_requests w =
     (if \<not> UCX_ENABLED then Some (Inl NotBuiltWithUCX, c, w)
      else if \<not> p2p_enabled c then Some (Inl NotInitializedForP2P, c, w)
      else if \<not> ucp_worker c \<noteq> 0 then Some (Inl UCXNotInitialized, c, w)
      else
        (case time_NULL w of
           None \<Rightarrow> None
         | Some (start, w1) \<Rightarrow>
             (case waitall_release c array_of_requests [] of
                (Inl e, c1) \<Rightarrow> Some (Inl e, c1, w1)
              | (Inr requests, c1) \<Rightarrow>
                  (case waitall_poll c1 requests start w1 of
                     None \<Rightarrow> None
                   | Some (res, w2) \<Rightarrow> Some (res, c1, w2)))))"



section \<open>Reachable communicators\<close>

text \<open>
  A communicator is reachable when it was constructed, or results from a reachable one
  by a call of \<open>isend\<close>, \<open>irecv\<close> or \<open>waitall\<close> that returned or failed, whatever the
  arguments, the transport's answers and the iteration order of \<open>_free_requests\<close> were.
\<close>

inductive reachable :: "std_comms \<Rightarrow> bool" where
  constructed_p2p: "reachable (std_comms_p2p comm worker eps sz rnk bufs)"
| constructed_coll: "reachable (std_comms_coll comm sz rnk bufs worker0 next0)"
| after_isend:
    "reachable c \<Longrightarrow> isend bgn c buf sz dest tag w = Some (res, c', w') \<Longrightarrow> reachable c'"
| after_irecv:
    "reachable c \<Longrightarrow> irecv bgn c buf sz source tag w = Some (res, c', w') \<Longrightarrow> reachable c'"
| after_waitall:
    "reachable c \<Longrightarrow> waitall c array_of_requests w = Some (res', c', w') \<Longrightarrow> reachable c'"


section \<open>A mock transport\<close>

text \<open>
  A communicator of two ranks on rank 0, and a transport that never completes a request
  and reports no progress. The first \<open>isend\<close> gets identifier 0; a \<open>waitall\<close> on it
  reads the times 0, 1 and 11 and times out.
\<close>

definition mock_comms :: std_comms where
  "mock_comms = std_comms_p2p 100 200 (\<lambda>i. 300 + of_int i) 2 0 (1, 2, 3)"

definition mock_coll :: std_comms where
  "mock_coll = std_comms_coll 100 2 0 (1, 2, 3) 200 0"

definition mock_request :: "ptr \<Rightarrow> ucp_request" where
  "mock_request p =
     \<lparr>req = p, needs_release = True, other_rank = 1, is_send_request = True\<rparr>"

definition mock_ucx :: ucx where
  "mock_ucx =
     \<lparr>clock = [0, 1, 11],
      progress_results = [(0, []), (0, [])],
      request_results = [Some (mock_request 500), Some (mock_request 501)],
      completed = (\<lambda>_. 0),
      UCS_PTR_IS_PTR = (\<lambda>p. p \<noteq> 0),
      UCS_PTR_IS_ERR = (\<lambda>_. False),
      default_tag_mask = 0, posted = [], freed = []\<rparr>"

definition mock_comms1 :: std_comms where
  "mock_comms1 =
     mock_comms\<lparr>next_request_id := 1, requests_in_flight := [0 \<mapsto> mock_request 500]\<rparr>"

definition mock_ucx1 :: ucx where
  "mock_ucx1 =
     mock_ucx\<lparr>request_results := [Some (mock_request 501)],
              posted := [UcpIsend 301 0 4 9 0 0]\<rparr>"

definition mock_comms2 :: std_comms where
  "mock_comms2 = mock_comms1\<lparr>free_requests := {0}, requests_in_flight := Map.empty\<rparr>"

definition mock_ucx2 :: ucx where
  "mock_ucx2 = mock_ucx1\<lparr>clock := [], progress_results := [(0, [])]\<rparr>"

definition mock_comms3 :: std_comms where
  "mock_comms3 =
     mock_comms2\<lparr>free_requests := {}, requests_in_flight := [0 \<mapsto> mock_request 501]\<rparr>"

definition mock_ucx3 :: ucx where
  "mock_ucx3 =
     mock_ucx2\<lparr>request_results := [],
               posted := [UcpIsend 301 0 4 9 0 0, UcpIsend 301 0 4 9 0 0]\<rparr>"

lemma mock_isend:
  "isend Min mock_comms 0 4 1 9 mock_ucx = Some (Inr 0, mock_comms1, mock_ucx1)"
  by (simp add: isend_def UCX_ENABLED_def mock_comms_def std_comms_p2p_def get_request_id_def
        ucp_isend_def mock_ucx_def getRank_def map_insert_def mock_comms1_def mock_ucx1_def)

lemma mock_waitall:
  "waitall mock_comms1 [0] mock_ucx1 = Some (Inl TimedOut, mock_comms2, mock_ucx2)"
  by (simp add: waitall_def UCX_ENABLED_def mock_comms_def std_comms_p2p_def
        mock_ucx_def mock_comms1_def mock_ucx1_def mock_comms2_def mock_ucx2_def
        time_NULL_def waitall_poll.simps progress_loop.simps ucp_progress_def
        mock_request_def)

lemma mock_isend_again:
  "isend Min mock_comms2 0 4 1 9 mock_ucx2 = Some (Inr 0, mock_comms3, mock_ucx3)"
  by (simp add: isend_def UCX_ENABLED_def mock_comms_def std_comms_p2p_def get_request_id_def
        ucp_isend_def mock_ucx_def getRank_def map_insert_def mock_comms1_def mock_ucx1_def
        mock_comms2_def mock_ucx2_def mock_comms3_def mock_ucx3_def)

lemma mock_get_request_id:
  "get_request_id Min mock_comms2 = (0, mock_comms2\<lparr>free_requests := {}\<rparr>)"
  by (simp add: get_request_id_def mock_comms2_def)

text \<open>
  A second run on the same communicator: an \<open>isend\<close> and an \<open>irecv\<close> get the identifiers
  0 and 1. A \<open>waitall\<close> on identifier 0 alone sees progress once (the receive completes)
  and reads the time 2; the send never completes, and the call times out at time 13. The
  free set is then the single identifier 0, so that the next \<open>irecv\<close> gets 0 whatever the
  iteration order of the set is.
\<close>

definition mock_ucx_p :: ucx where
  "mock_ucx_p =
     \<lparr>clock = [0, 1, 2, 3, 13],
      progress_results = [(1, [(501, 1)]), (0, []), (0, [])],
      request_results =
        [Some (mock_request 500), Some (mock_request 501), Some (mock_request 502)],
      completed = (\<lambda>_. 0),
      UCS_PTR_IS_PTR = (\<lambda>p. p \<noteq> 0),
      UCS_PTR_IS_ERR = (\<lambda>_. False),
      default_tag_mask = 0, posted = [], freed = []\<rparr>"

definition mock_ucx_p1 :: ucx where
  "mock_ucx_p1 =
     mock_ucx_p\<lparr>request_results := [Some (mock_request 501), Some (mock_request 502)],
                posted := [UcpIsend 301 0 4 9 0 0]\<rparr>"

definition mock_two :: std_comms where
  "mock_two =
     mock_comms\<lparr>next_request_id := 2,
       requests_in_flight := [0 \<mapsto> mock_request 500, 1 \<mapsto> mock_request 501]\<rparr>"

definition mock_ucx_p2 :: ucx where
  "mock_ucx_p2 =
     mock_ucx_p\<lparr>request_results := [Some (mock_request 502)],
                posted := [UcpIsend 301 0 4 9 0 0, UcpIrecv 200 301 0 4 9 0 1]\<rparr>"

definition mock_two_timed_out :: std_comms where
  "mock_two_timed_out =
     mock_two\<lparr>free_requests := {0}, requests_in_flight := [1 \<mapsto> mock_request 501]\<rparr>"

definition mock_ucx_q :: ucx where
  "mock_ucx_q =
     mock_ucx_p2\<lparr>clock := [], progress_results := [],
                 completed := (\<lambda>_. 0)(501 := 1)\<rparr>"

definition mock_two_reused :: std_comms where
  "mock_two_reused =
     mock_two_timed_out\<lparr>free_requests := {},
       requests_in_flight := [1 \<mapsto> mock_request 501, 0 \<mapsto> mock_request 502]\<rparr>"

definition mock_ucx_q1 :: ucx where
  "mock_ucx_q1 =
     mock_ucx_q\<lparr>request_results := [],
       posted := [UcpIsend 301 0 4 9 0 0, UcpIrecv 200 301 0 4 9 0 1,
                  UcpIrecv 200 301 0 4 9 0 1]\<rparr>"

lemmas mock_defs =
  mock_comms_def std_comms_p2p_def mock_request_def mock_comms1_def
  mock_ucx_p_def mock_ucx_p1_def mock_two_def mock_ucx_p2_def mock_two_timed_out_def
  mock_ucx_q_def mock_two_reused_def mock_ucx_q1_def

lemma mock_p_isend:
  "isend Min mock_comms 0 4 1 9 mock_ucx_p = Some (Inr 0, mock_comms1, mock_ucx_p1)"
  by (simp add: isend_def UCX_ENABLED_def get_request_id_def ucp_isend_def getRank_def
        map_insert_def mock_defs)

lemma mock_p_irecv:
  "irecv Min mock_comms1 0 4 1 9 mock_ucx_p1 = Some (Inr 1, mock_two, mock_ucx_p2)"
  by (simp add: irecv_def UCX_ENABLED_def get_request_id_def ucp_irecv_def getRank_def
        map_insert_def mock_defs)

lemma mock_q_waitall:
  "waitall mock_two [0] mock_ucx_p2 = Some (Inl TimedOut, mock_two_timed_out, mock_ucx_q)"
  by (simp add: waitall_def UCX_ENABLED_def time_NULL_def waitall_poll.simps
        progress_loop.simps ucp_progress_def free_ucp_request_def mock_defs
        fun_upd_twist)

lemma mock_q_irecv_Min:
  "irecv Min mock_two_timed_out 0 4 1 9 mock_ucx_q = Some (Inr 0, mock_two_reused, mock_ucx_q1)"
  by (simp add: irecv_def UCX_ENABLED_def get_request_id_def ucp_irecv_def getRank_def
        map_insert_def mock_defs)

lemma mock_q_irecv_Max:
  "irecv Max mock_two_timed_out 0 4 1 9 mock_ucx_q = Some (Inr 0, mock_two_reused, mock_ucx_q1)"
  by (simp add: irecv_def UCX_ENABLED_def get_request_id_def ucp_irecv_def getRank_def
        map_insert_def mock_defs)

text \<open>A third run: the transport completes the send during the first progress call.\<close>

definition mock_ucx_done :: ucx where
  "mock_ucx_done =
     mock_ucx1\<lparr>clock := [0, 1, 2], progress_results := [(1, [(500, 1)]), (0, [])]\<rparr>"

definition mock_ucx_done1 :: ucx where
  "mock_ucx_done1 =
     mock_ucx_done\<lparr>clock := [], progress_results := [],
       completed := (\<lambda>_. 0)(500 := 1), freed := [mock_request 500]\<rparr>"

lemma mock_waitall_done:
  "waitall mock_comms1 [0] mock_ucx_done = Some (Inr (), mock_comms2, mock_ucx_done1)"
  by (simp add: waitall_def UCX_ENABLED_def time_NULL_def waitall_poll.simps
        progress_loop.simps ucp_progress_def free_ucp_request_def mock_defs
        mock_ucx_done_def mock_ucx_done1_def mock_ucx1_def mock_ucx_def mock_comms2_def)

text \<open>
  The device side: a stream that is pending twice and then complete, with no asynchronous
  fault; one whose first memset and first broadcast fail; and one that reports a fault
  twice, where the second abort fails.
\<close>

definition mock_device :: device where
  "mock_device =
     \<lparr>memset_results = [cudaSuccess, cudaSuccess],
      collective_results = [ncclSuccess, ncclSuccess],
      stream_queries = [cudaErrorNotReady, cudaErrorNotReady, cudaSuccess],
      async_errors = [(ncclSuccess, ncclSuccess), (ncclSuccess, ncclSuccess)],
      abort_results = [], calls = []\<rparr>"

definition mock_device_failing :: device where
  "mock_device_failing =
     mock_device\<lparr>memset_results := [cudaErrorOther 2, cudaSuccess],
                 collective_results := [ncclFailure 1, ncclSuccess]\<rparr>"

definition mock_device_aborting :: device where
  "mock_device_aborting =
     mock_device\<lparr>stream_queries := [cudaErrorNotReady, cudaErrorNotReady],
                 async_errors := [(ncclSuccess, ncclFailure 5), (ncclSuccess, ncclFailure 5)],
                 abort_results := [ncclSuccess, ncclFailure 6]\<rparr>"

lemma reachable_mock_comms2: "reachable mock_comms2"
proof -
  have "reachable mock_comms"
    unfolding mock_comms_def by (rule constructed_p2p)
  then have "reachable mock_comms1"
    using mock_isend by (rule after_isend)
  then show ?thesis
    using mock_waitall by (rule after_waitall)
qed


section \<open>The split operation\<close>

text \<open>
  C9: for every pair of arguments \<open>(color, key)\<close> the split operation fails with the
  not-supported condition; it returns no communicator and leaves the communicator as it
  was.
\<close>

theorem commSplit_not_supported:
  "commSplit c color key = (Inl CommSplitNotSupported, c)"
  by (simp add: commSplit_def)


section \<open>Point-to-point calls without the message transport\<close>

text \<open>
  C8: on a communicator whose point-to-point capability is not enabled, or whose worker
  handle is null, each of \<open>isend\<close>, \<open>irecv\<close> and \<open>waitall\<close> fails at once with a
  configuration error: the communicator and the transport after the call are those before
  it, so no identifier was allocated and nothing of the registry changed.
\<close>

theorem p2p_without_transport_fails:
  assumes "\<not> p2p_enabled c \<or> ucp_worker c = 0"
  shows "isend bgn c buf sz dest tag w =
           Some (Inl (if \<not> p2p_enabled c then NotInitializedForP2P else UCXNotInitialized),
                 c, w)
       \<and> irecv bgn c buf sz source tag w =
           Some (Inl (if \<not> p2p_enabled c then NotInitializedForP2P else UCXNotInitialized),
                 c, w)
       \<and> waitall c array_of_requests w =
           Some (Inl (if \<not> p2p_enabled c then NotInitializedForP2P else UCXNotInitialized),
                 c, w)"
  using assms by (auto simp: isend_def irecv_def waitall_def UCX_ENABLED_def)

theorem p2p_without_transport_fails_witness:
  "\<not> p2p_enabled mock_coll
   \<and> isend Min mock_coll 0 4 1 9 mock_ucx = Some (Inl NotInitializedForP2P, mock_coll, mock_ucx)
   \<and> irecv Min mock_coll 0 4 1 9 mock_ucx = Some (Inl NotInitializedForP2P, mock_coll, mock_ucx)
   \<and> waitall mock_coll [0] mock_ucx = Some (Inl NotInitializedForP2P, mock_coll, mock_ucx)"
proof -
  have h: "\<not> p2p_enabled mock_coll"
    by (simp add: mock_coll_def std_comms_coll_def)
  from p2p_without_transport_fails [of mock_coll Min 0 4 1 9 mock_ucx 1 "[0]", OF disjI1 [OF h]] h
  show ?thesis by simp
qed


section \<open>The free identifiers and the requests in flight\<close>

lemma get_request_id_cases:
  "get_request_id bgn c = (x, c1) \<Longrightarrow>
     (free_requests c = {} \<and> x = next_request_id c
        \<and> c1 = c\<lparr>next_request_id := next_request_id c + 1\<rparr>)
   \<or> (free_requests c \<noteq> {} \<and> x = bgn (free_requests c)
        \<and> c1 = c\<lparr>free_requests := free_requests c - {x}\<rparr>)"
  by (auto simp: get_request_id_def Let_def split: if_splits)

definition registry_inv :: "std_comms \<Rightarrow> bool" where
  "registry_inv c \<longleftrightarrow> free_requests c \<inter> dom (requests_in_flight c) = {}"

lemma registry_inv_iff:
  "registry_inv c \<longleftrightarrow> (\<forall>y. y \<in> free_requests c \<longrightarrow> requests_in_flight c y = None)"
  by (auto simp: registry_inv_def disjoint_iff)

lemma get_request_id_inv:
  assumes "registry_inv c" "get_request_id bgn c = (x, c1)"
  shows "registry_inv c1 \<and> x \<notin> free_requests c1"
  using get_request_id_cases [OF assms(2)] assms(1)
  by (auto simp: registry_inv_iff)

lemma register_inv:
  assumes "registry_inv c1 \<and> x \<notin> free_requests c1"
  shows "registry_inv (c1\<lparr>requests_in_flight := map_insert (requests_in_flight c1) x v\<rparr>)"
  using assms by (auto simp: registry_inv_iff map_insert_def)

lemma isend_inv:
  assumes "registry_inv c" "isend bgn c buf sz dest tag w = Some (res, c', w')"
  shows "registry_inv c'"
proof (cases "UCX_ENABLED \<and> p2p_enabled c \<and> ucp_worker c \<noteq> 0")
  case False
  with assms show ?thesis by (auto simp: isend_def split: if_splits)
next
  case True
  obtain x c1 where g: "get_request_id bgn c = (x, c1)" by force
  note i = get_request_id_inv [OF assms(1) g]
  from assms(2) True g i register_inv [OF i] show ?thesis
    by (auto simp: isend_def split: option.splits)
qed

lemma irecv_inv:
  assumes "registry_inv c" "irecv bgn c buf sz source tag w = Some (res, c', w')"
  shows "registry_inv c'"
proof (cases "UCX_ENABLED \<and> p2p_enabled c \<and> ucp_worker c \<noteq> 0")
  case False
  with assms show ?thesis by (auto simp: irecv_def split: if_splits)
next
  case True
  obtain x c1 where g: "get_request_id bgn c = (x, c1)" by force
  note i = get_request_id_inv [OF assms(1) g]
  from assms(2) True g i register_inv [OF i] show ?thesis
    by (auto simp: irecv_def split: option.splits)
qed

lemma waitall_release_inv:
  "registry_inv c \<Longrightarrow> waitall_release c xs acc = (res, c') \<Longrightarrow> registry_inv c'"
proof (induction xs arbitrary: c acc)
  case Nil
  then show ?case by simp
next
  case (Cons x xs)
  show ?case
  proof (cases "requests_in_flight c x")
    case None
    with Cons.prems show ?thesis by simp
  next
    case (Some r)
    let ?c1 = "c\<lparr>free_requests := insert x (free_requests c),
                 requests_in_flight := (requests_in_flight c)(x := None)\<rparr>"
    have "registry_inv ?c1"
      using Cons.prems(1) by (auto simp: registry_inv_def)
    moreover have "waitall_release ?c1 xs (acc @ [r]) = (res, c')"
      using Cons.prems(2) Some by simp
    ultimately show ?thesis by (rule Cons.IH)
  qed
qed

lemma waitall_inv:
  assumes "registry_inv c" "waitall c xs w = Some (res, c', w')"
  shows "registry_inv c'"
proof (cases "UCX_ENABLED \<and> p2p_enabled c \<and> ucp_worker c \<noteq> 0")
  case False
  with assms show ?thesis by (auto simp: waitall_def split: if_splits)
next
  case True
  obtain r c1 where g: "waitall_release c xs [] = (r, c1)" by force
  note i = waitall_release_inv [OF assms(1) g]
  from assms(2) True g i show ?thesis
    by (auto simp: waitall_def split: option.splits sum.splits)
qed

text \<open>
  C3: in every reachable communicator the set of free identifiers is disjoint from the
  keys of the table of requests in flight.
\<close>

theorem free_disjoint_from_in_flight:
  "reachable c \<Longrightarrow> free_requests c \<inter> dom (requests_in_flight c) = {}"
proof -
  assume "reachable c"
  then have "registry_inv c"
  proof (induction rule: reachable.induct)
    case constructed_p2p
    show ?case by (simp add: registry_inv_def std_comms_p2p_def split: prod.splits)
  next
    case constructed_coll
    show ?case by (simp add: registry_inv_def std_comms_coll_def split: prod.splits)
  next
    case after_isend
    then show ?case by (blast intro: isend_inv)
  next
    case after_irecv
    then show ?case by (blast intro: irecv_inv)
  next
    case after_waitall
    then show ?case by (blast intro: waitall_inv)
  qed
  then show ?thesis by (simp add: registry_inv_def)
qed


theorem free_disjoint_from_in_flight_witness:
  "reachable mock_comms2
   \<and> free_requests mock_comms2 = {0}
   \<and> free_requests mock_comms2 \<inter> dom (requests_in_flight mock_comms2) = {}"
  using free_disjoint_from_in_flight [OF reachable_mock_comms2] reachable_mock_comms2
  by (simp add: mock_comms2_def)



section \<open>Allocation of identifiers\<close>

lemma isend_returns_allocated:
  assumes "get_request_id bgn c = (x, c1)"
      and "isend bgn c buf sz dest tag w = Some (Inr y, c', w')"
  shows "y = x \<and> free_requests c' = free_requests c1
         \<and> next_request_id c' = next_request_id c1"
  using assms by (auto simp: isend_def split: if_splits option.splits)

lemma irecv_returns_allocated:
  assumes "get_request_id bgn c = (x, c1)"
      and "irecv bgn c buf sz source tag w = Some (Inr y, c', w')"
  shows "y = x \<and> free_requests c' = free_requests c1
         \<and> next_request_id c' = next_request_id c1"
  using assms by (auto simp: irecv_def split: if_splits option.splits)

text \<open>
  C4: the identifier \<open>get_request_id\<close> allocates. If the free set is not empty, the
  identifier is an element of it and is removed from it, and the counter stays; otherwise
  the identifier is the value of the counter, and the counter is incremented by one
  (as an unsigned integer). An \<open>isend\<close> or \<open>irecv\<close> that returns an identifier returns
  this one, with the free set and the counter as the allocation left them. The first
  element of a non-empty \<open>unordered_set\<close> is one of its elements: the hypothesis on
  \<open>bgn\<close>.
\<close>

theorem get_request_id_allocates:
  assumes "free_requests c \<noteq> {} \<Longrightarrow> bgn (free_requests c) \<in> free_requests c"
      and "get_request_id bgn c = (x, c1)"
  shows "(if free_requests c \<noteq> {}
          then x \<in> free_requests c \<and> free_requests c1 = free_requests c - {x}
               \<and> next_request_id c1 = next_request_id c
          else x = next_request_id c \<and> next_request_id c1 = next_request_id c + 1
               \<and> free_requests c1 = {})
       \<and> (isend bgn c buf sz dest tag w = Some (Inr y, c', w') \<longrightarrow>
            y = x \<and> free_requests c' = free_requests c1
            \<and> next_request_id c' = next_request_id c1)
       \<and> (irecv bgn c buf sz dest tag w = Some (Inr y, c', w') \<longrightarrow>
            y = x \<and> free_requests c' = free_requests c1
            \<and> next_request_id c' = next_request_id c1)"
proof (intro conjI impI)
  show "if free_requests c \<noteq> {}
          then x \<in> free_requests c \<and> free_requests c1 = free_requests c - {x}
               \<and> next_request_id c1 = next_request_id c
          else x = next_request_id c \<and> next_request_id c1 = next_request_id c + 1
               \<and> free_requests c1 = {}"
    using get_request_id_cases [OF assms(2)] assms(1) by auto
next
  assume "isend bgn c buf sz dest tag w = Some (Inr y, c', w')"
  from isend_returns_allocated [OF assms(2) this]
  show "y = x" "free_requests c' = free_requests c1"
    "next_request_id c' = next_request_id c1" by simp_all
next
  assume "irecv bgn c buf sz dest tag w = Some (Inr y, c', w')"
  from irecv_returns_allocated [OF assms(2) this]
  show "y = x" "free_requests c' = free_requests c1"
    "next_request_id c' = next_request_id c1" by simp_all
qed

theorem get_request_id_allocates_witness:
  "free_requests mock_comms2 = {0} \<and> next_request_id mock_comms2 = 1
   \<and> get_request_id Min mock_comms2 = (0, mock_comms2\<lparr>free_requests := {}\<rparr>)
   \<and> isend Min mock_comms2 0 4 1 9 mock_ucx2 = Some (Inr 0, mock_comms3, mock_ucx3)
   \<and> free_requests mock_comms3 = {} \<and> next_request_id mock_comms3 = 1"
proof -
  have f: "free_requests mock_comms2 = {0}"
    by (simp add: mock_comms2_def)
  have b: "free_requests mock_comms2 \<noteq> {} \<Longrightarrow>
             Min (free_requests mock_comms2) \<in> free_requests mock_comms2"
    by (simp add: f)
  from get_request_id_allocates [OF b mock_get_request_id,
         of 0 4 1 9 mock_ucx2 0 mock_comms3 mock_ucx3]
    f mock_get_request_id mock_isend_again
  show ?thesis by (simp add: mock_comms2_def mock_comms1_def)
qed


section \<open>The two loops of waitall\<close>

lemma waitall_release_Inr:
  "waitall_release c xs acc = (Inr rs, c') \<Longrightarrow>
     c' = c\<lparr>free_requests := free_requests c \<union> set xs,
            requests_in_flight := (\<lambda>x. if x \<in> set xs then None else requests_in_flight c x)\<rparr>
     \<and> rs = acc @ map (the \<circ> requests_in_flight c) xs
     \<and> distinct xs \<and> set xs \<subseteq> dom (requests_in_flight c)"
proof (induction xs arbitrary: c acc)
  case Nil
  then show ?case by simp
next
  case (Cons x xs)
  from Cons.prems obtain r where r: "requests_in_flight c x = Some r"
    by (cases "requests_in_flight c x") auto
  let ?c1 = "c\<lparr>free_requests := insert x (free_requests c),
               requests_in_flight := (requests_in_flight c)(x := None)\<rparr>"
  from Cons.prems r have "waitall_release ?c1 xs (acc @ [r]) = (Inr rs, c')"
    by simp
  from Cons.IH [OF this]
  have c': "c' = ?c1\<lparr>free_requests := free_requests ?c1 \<union> set xs,
               requests_in_flight :=
                 (\<lambda>y. if y \<in> set xs then None else requests_in_flight ?c1 y)\<rparr>"
    and rs: "rs = (acc @ [r]) @ map (the \<circ> requests_in_flight ?c1) xs"
    and d: "distinct xs" and s: "set xs \<subseteq> dom (requests_in_flight ?c1)"
    by blast+
  from s have nx: "x \<notin> set xs" by auto
  have m: "map (the \<circ> requests_in_flight ?c1) xs = map (the \<circ> requests_in_flight c) xs"
    using nx by (induction xs) auto
  have f: "(\<lambda>y. if y \<in> set xs then None else requests_in_flight ?c1 y)
           = (\<lambda>y. if y \<in> set (x # xs) then None else requests_in_flight c y)"
    by (auto simp: fun_eq_iff)
  show ?case
    using c' rs d s nx m r f by (auto simp: insert_commute)
qed

lemma waitall_release_fails_at:
  assumes "k < length xs" "distinct (take k xs)"
    "set (take k xs) \<subseteq> dom (requests_in_flight c)"
    "xs ! k \<notin> dom (requests_in_flight c) - set (take k xs)"
  shows "waitall_release c xs acc =
           (Inl (InvalidRequest (xs ! k)),
            c\<lparr>free_requests := free_requests c \<union> set (take k xs),
              requests_in_flight :=
                (\<lambda>x. if x \<in> set (take k xs) then None else requests_in_flight c x)\<rparr>)"
  using assms
proof (induction xs arbitrary: k c acc)
  case Nil
  then show ?case by simp
next
  case (Cons x xs)
  show ?case
  proof (cases k)
    case 0
    with Cons.prems show ?thesis by (auto simp: domIff)
  next
    case (Suc j)
    from Cons.prems Suc obtain r where r: "requests_in_flight c x = Some r"
      by auto
    let ?c1 = "c\<lparr>free_requests := insert x (free_requests c),
                 requests_in_flight := (requests_in_flight c)(x := None)\<rparr>"
    have 1: "j < length xs" "distinct (take j xs)"
      "set (take j xs) \<subseteq> dom (requests_in_flight ?c1)"
      "xs ! j \<notin> dom (requests_in_flight ?c1) - set (take j xs)"
      using Cons.prems Suc by auto
    have f: "(\<lambda>y. if y \<in> set (take j xs) then None else requests_in_flight ?c1 y)
           = (\<lambda>y. if y \<in> set (take k (x # xs)) then None else requests_in_flight c y)"
      using Suc by (auto simp: fun_eq_iff)
    show ?thesis
      using Cons.IH [OF 1, of "acc @ [r]"] r Suc f by (auto simp: insert_commute)
  qed
qed

lemma progress_loop_freed:
  "progress_loop worker restart w = Some (b, w') \<Longrightarrow> freed w' = freed w"
proof (induction worker restart w rule: progress_loop.induct)
  case (1 worker restart w)
  from "1.prems" obtain n w1 where a: "ucp_progress worker w = Some (n, w1)"
    by (auto simp: progress_loop.simps [of worker restart w] split: option.splits)
  have c1: "freed w1 = freed w"
    using a by (auto simp: ucp_progress_def split: list.splits)
  show ?case
  proof (cases "n = 0")
    case True
    with "1.prems" a c1 show ?thesis
      by (simp add: progress_loop.simps [of worker restart w])
  next
    case False
    with "1.prems" a have pl: "progress_loop worker True w1 = Some (b, w')"
      by (simp add: progress_loop.simps [of worker restart w])
    from "1.IH" [OF a refl False pl] c1 show ?thesis by simp
  qed
qed

lemma time_NULL_freed: "time_NULL w = Some (t, w') \<Longrightarrow> freed w' = freed w"
  by (auto simp: time_NULL_def split: list.splits)

lemma waitall_sweep_freed:
  "waitall_sweep c kept rs start w = Some (Inr (kept', start'), w') \<Longrightarrow>
     mset (freed w') + mset kept' = mset (freed w) + mset kept + mset rs"
proof (induction rs arbitrary: kept start w)
  case Nil
  then show ?case by simp
next
  case (Cons r rest)
  from Cons.prems obtain restart w1 where
    pl: "progress_loop (ucp_worker c) False w = Some (restart, w1)"
    by (auto split: option.splits)
  have f1: "freed w1 = freed w"
    using progress_loop_freed [OF pl] .
  from Cons.prems pl f1 show ?case
    by (auto split: if_splits option.splits
             dest!: Cons.IH time_NULL_freed simp: free_ucp_request_def)
qed

lemma waitall_poll_freed:
  "waitall_poll c rs start w = Some (Inr (), w') \<Longrightarrow>
     mset (freed w') = mset (freed w) + mset rs"
proof (induction c rs start w rule: waitall_poll.induct)
  case (1 c requests start w)
  show ?case
  proof (cases "requests = []")
    case True
    with "1.prems" show ?thesis
      by (simp add: waitall_poll.simps [of c "[]" start w])
  next
    case False
    with "1.prems" obtain now w1 where t: "time_NULL w = Some (now, w1)"
      by (auto simp: waitall_poll.simps [of c requests start w] split: option.splits)
    from "1.prems" False t have lt: "now - start < 10"
      by (auto simp: waitall_poll.simps [of c requests start w] split: if_splits)
    from "1.prems" False t lt obtain requests' start' w2 where
      s: "waitall_sweep c [] requests start w1 = Some (Inr (requests', start'), w2)"
      and p: "waitall_poll c requests' start' w2 = Some (Inr (), w')"
      by (auto simp: waitall_poll.simps [of c requests start w]
               split: option.splits sum.splits)
    have "mset (freed w') = mset (freed w2) + mset requests'"
      using "1.IH" [OF _ t refl _ s refl refl refl p] False lt by simp
    with waitall_sweep_freed [OF s] time_NULL_freed [OF t] show ?thesis
      by simp
  qed
qed

lemma waitall_poll_Nil: "waitall_poll c [] start w = Some (Inr (), w)"
  by (simp add: waitall_poll.simps)


lemma waitall_release_Inl:
  "waitall_release c xs acc = (Inl e, c') \<Longrightarrow> e \<noteq> TimedOut"
proof (induction xs arbitrary: c acc)
  case Nil
  then show ?case by simp
next
  case (Cons x xs)
  then show ?case
    by (cases "requests_in_flight c x") auto
qed


text \<open>
  Notions for the proofs about the polling loop. \<open>flags_after n w\<close> are the \<open>completed\<close>
  flags as the first \<open>n\<close> progress calls from \<open>w\<close> on leave them; \<open>advanced w0 n w\<close> says
  that \<open>w\<close> is \<open>w0\<close> after \<open>n\<close> progress calls; a request is \<open>observed\<close> complete within
  \<open>m\<close> progress calls when it needs no release or its flag is 1 after one of them.
\<close>

definition flags_after :: "nat \<Rightarrow> ucx \<Rightarrow> ptr \<Rightarrow> int" where
  "flags_after n w =
     write_flags (concat (map snd (take n (progress_results w)))) (completed w)"

definition advanced :: "ucx \<Rightarrow> nat \<Rightarrow> ucx \<Rightarrow> bool" where
  "advanced w0 n w \<longleftrightarrow>
     n \<le> length (progress_results w0)
     \<and> progress_results w = drop n (progress_results w0)
     \<and> completed w = flags_after n w0"

lemma write_flags_append:
  "write_flags (a @ b) m = write_flags b (write_flags a m)"
  by (induction a arbitrary: m) auto

lemma advanced_0: "advanced w 0 w"
  by (simp add: advanced_def flags_after_def)

lemma advanced_ucp_progress:
  assumes "advanced w0 n w" "ucp_progress worker w = Some (cnt, w1)"
  shows "advanced w0 (Suc n) w1"
proof -
  from assms(2) obtain writes rest where
    p: "progress_results w = (cnt, writes) # rest"
    and w1: "progress_results w1 = rest"
      "completed w1 = write_flags writes (completed w)"
    by (auto simp: ucp_progress_def split: list.splits)
  from assms(1) have d: "drop n (progress_results w0) = (cnt, writes) # rest"
    and c: "completed w = flags_after n w0"
    using p by (simp_all add: advanced_def)
  from d have lt: "n < length (progress_results w0)"
    by (cases "n < length (progress_results w0)") auto
  from d lt have nth: "progress_results w0 ! n = (cnt, writes)"
    by (metis nth_via_drop)
  from d have rest: "drop (Suc n) (progress_results w0) = rest"
    by (metis drop_Suc list.sel(3) tl_drop)
  have "flags_after (Suc n) w0 = write_flags writes (flags_after n w0)"
    using lt nth by (simp add: flags_after_def take_Suc_conv_app_nth write_flags_append)
  with lt rest w1 c show ?thesis
    by (simp add: advanced_def)
qed

lemma advanced_time_NULL:
  "advanced w0 n w \<Longrightarrow> time_NULL w = Some (t, w1) \<Longrightarrow> advanced w0 n w1"
  by (auto simp: advanced_def time_NULL_def split: list.splits)

lemma advanced_free: "advanced w0 n w \<Longrightarrow> advanced w0 n (free_ucp_request r w)"
  by (simp add: advanced_def free_ucp_request_def)

lemma progress_loop_advanced:
  "advanced w0 n w \<Longrightarrow> progress_loop worker b w = Some (b', w') \<Longrightarrow>
     \<exists>m. n < m \<and> advanced w0 m w'"
proof (induction worker b w arbitrary: n rule: progress_loop.induct)
  case (1 worker restart w)
  from "1.prems"(2) obtain cnt w1 where a: "ucp_progress worker w = Some (cnt, w1)"
    by (auto simp: progress_loop.simps [of worker restart w] split: option.splits)
  note s = advanced_ucp_progress [OF "1.prems"(1) a]
  show ?case
  proof (cases "cnt = 0")
    case True
    with "1.prems"(2) a have "w' = w1"
      by (simp add: progress_loop.simps [of worker restart w])
    with s show ?thesis by auto
  next
    case False
    with "1.prems"(2) a have pl: "progress_loop worker True w1 = Some (b', w')"
      by (simp add: progress_loop.simps [of worker restart w])
    from "1.IH" [OF a refl False s pl] show ?thesis
      by (auto intro: Suc_lessD)
  qed
qed

definition observed :: "ucx \<Rightarrow> nat \<Rightarrow> ucp_request \<Rightarrow> bool" where
  "observed w0 m r \<longleftrightarrow>
     \<not> needs_release r \<or> (\<exists>j. 0 < j \<and> j \<le> m \<and> flags_after j w0 (req r) = 1)"

lemma observed_mono: "observed w0 m r \<Longrightarrow> m \<le> m' \<Longrightarrow> observed w0 m' r"
  by (auto simp: observed_def intro: order_trans)

lemma waitall_sweep_observed:
  "advanced w0 n w \<Longrightarrow>
   waitall_sweep c kept rs start w = Some (Inr (kept', start'), w') \<Longrightarrow>
     \<exists>m dn. n \<le> m \<and> advanced w0 m w' \<and> freed w' = freed w @ dn
       \<and> mset dn + mset kept' = mset kept + mset rs
       \<and> (\<forall>r \<in> set dn. observed w0 m r)"
proof (induction rs arbitrary: kept start w n)
  case Nil
  then show ?case by auto
next
  case (Cons r rest)
  from Cons.prems(2) obtain restart w1 where
    pl: "progress_loop (ucp_worker c) False w = Some (restart, w1)"
    by (auto split: option.splits)
  from progress_loop_advanced [OF Cons.prems(1) pl] obtain n1 where
    n1: "n < n1" "advanced w0 n1 w1" by blast
  have f1: "freed w1 = freed w"
    using progress_loop_freed [OF pl] .
  show ?case
  proof (cases "\<not> needs_release r \<or> completed w1 (req r) = 1")
    case True
    with Cons.prems(2) pl obtain t w2 where
      t: "time_NULL (free_ucp_request r w1) = Some (t, w2)"
      and s: "waitall_sweep c kept rest t w2 = Some (Inr (kept', start'), w')"
      by (auto split: if_splits option.splits)
    have a2: "advanced w0 n1 w2"
      using advanced_time_NULL [OF advanced_free [OF n1(2)] t] .
    have f2: "freed w2 = freed w @ [r]"
      using time_NULL_freed [OF t] f1 by (simp add: free_ucp_request_def)
    from Cons.IH [OF a2 s] obtain m dn where
      m: "n1 \<le> m" "advanced w0 m w'" "freed w' = freed w2 @ dn"
        "mset dn + mset kept' = mset kept + mset rest"
        "\<forall>r \<in> set dn. observed w0 m r"
      by blast
    have "observed w0 n1 r"
    proof (cases "needs_release r")
      case False
      then show ?thesis by (simp add: observed_def)
    next
      case nr: True
      with True have "completed w1 (req r) = 1" by simp
      with n1 have "flags_after n1 w0 (req r) = 1" by (simp add: advanced_def)
      moreover from n1(1) have "0 < n1" by simp
      ultimately show ?thesis unfolding observed_def by blast
    qed
    then have "observed w0 m r" using m(1) by (rule observed_mono)
    with m f2 n1(1) have
      "n \<le> m \<and> advanced w0 m w' \<and> freed w' = freed w @ (r # dn)
       \<and> mset (r # dn) + mset kept' = mset kept + mset (r # rest)
       \<and> (\<forall>r \<in> set (r # dn). observed w0 m r)"
      by auto
    then show ?thesis by blast
  next
    case False
    have "\<exists>st w2. advanced w0 n1 w2 \<and> freed w2 = freed w
            \<and> waitall_sweep c (kept @ [r]) rest st w2 = Some (Inr (kept', start'), w')"
    proof (cases restart)
      case True
      with False Cons.prems(2) pl obtain t w2 where
        t: "time_NULL w1 = Some (t, w2)"
        and s: "waitall_sweep c (kept @ [r]) rest t w2 = Some (Inr (kept', start'), w')"
        by (auto split: if_splits option.splits)
      from advanced_time_NULL [OF n1(2) t] time_NULL_freed [OF t] f1 s
      show ?thesis by auto
    next
      case nr: False
      with False Cons.prems(2) pl have
        "waitall_sweep c (kept @ [r]) rest start w1 = Some (Inr (kept', start'), w')"
        by (auto split: if_splits)
      with n1(2) f1 show ?thesis by auto
    qed
    then obtain st w2 where
      a2: "advanced w0 n1 w2" and f2: "freed w2 = freed w"
      and s: "waitall_sweep c (kept @ [r]) rest st w2 = Some (Inr (kept', start'), w')"
      by blast
    from Cons.IH [OF a2 s] obtain m dn where
      m: "n1 \<le> m" "advanced w0 m w'" "freed w' = freed w2 @ dn"
        "mset dn + mset kept' = mset (kept @ [r]) + mset rest"
        "\<forall>r \<in> set dn. observed w0 m r"
      by blast
    with f2 n1(1) have
      "n \<le> m \<and> advanced w0 m w' \<and> freed w' = freed w @ dn
       \<and> mset dn + mset kept' = mset kept + mset (r # rest)
       \<and> (\<forall>r \<in> set dn. observed w0 m r)"
      by auto
    then show ?thesis by blast
  qed
qed

lemma waitall_poll_observed:
  "advanced w0 n w \<Longrightarrow> waitall_poll c rs start w = Some (Inr (), w') \<Longrightarrow>
     \<exists>m dn. n \<le> m \<and> advanced w0 m w' \<and> freed w' = freed w @ dn
       \<and> mset dn = mset rs \<and> (\<forall>r \<in> set dn. observed w0 m r)"
proof (induction c rs start w arbitrary: n rule: waitall_poll.induct)
  case (1 c requests start w)
  show ?case
  proof (cases "requests = []")
    case True
    with "1.prems" have "w' = w"
      by (simp add: waitall_poll.simps [of c "[]" start w])
    with "1.prems"(1) True show ?thesis by auto
  next
    case False
    with "1.prems"(2) obtain now w1 where t: "time_NULL w = Some (now, w1)"
      by (auto simp: waitall_poll.simps [of c requests start w] split: option.splits)
    from "1.prems"(2) False t have lt: "now - start < 10"
      by (auto simp: waitall_poll.simps [of c requests start w] split: if_splits)
    from "1.prems"(2) False t lt obtain requests' start' w2 where
      s: "waitall_sweep c [] requests start w1 = Some (Inr (requests', start'), w2)"
      and p: "waitall_poll c requests' start' w2 = Some (Inr (), w')"
      by (auto simp: waitall_poll.simps [of c requests start w]
               split: option.splits sum.splits)
    from waitall_sweep_observed [OF advanced_time_NULL [OF "1.prems"(1) t] s]
    obtain m1 d1 where
      m1: "n \<le> m1" "advanced w0 m1 w2" "freed w2 = freed w1 @ d1"
        "mset d1 + mset requests' = mset requests" "\<forall>r \<in> set d1. observed w0 m1 r"
      by auto
    have gt: "0 < length requests" using False by simp
    have nlt: "\<not> \<not> now - start < 10" using lt by simp
    from "1.IH" [OF gt t refl nlt s refl refl refl m1(2) p]
    obtain m2 d2 where
      m2: "m1 \<le> m2" "advanced w0 m2 w'" "freed w' = freed w2 @ d2"
        "mset d2 = mset requests'" "\<forall>r \<in> set d2. observed w0 m2 r"
      by blast
    from m1(5) m2(1) have o1: "\<forall>r \<in> set d1. observed w0 m2 r"
      by (blast intro: observed_mono)
    from m1 m2 o1 time_NULL_freed [OF t] have
      "n \<le> m2 \<and> advanced w0 m2 w' \<and> freed w' = freed w @ (d1 @ d2)
       \<and> mset (d1 @ d2) = mset requests \<and> (\<forall>r \<in> set (d1 @ d2). observed w0 m2 r)"
      by auto
    then show ?thesis by blast
  qed
qed

lemma waitall_release_Inl_at:
  "waitall_release c xs acc = (Inl e, c') \<Longrightarrow>
     \<exists>k < length xs. e = InvalidRequest (xs ! k)
       \<and> distinct (take k xs)
       \<and> set (take k xs) \<subseteq> dom (requests_in_flight c)
       \<and> xs ! k \<notin> dom (requests_in_flight c) - set (take k xs)
       \<and> c' = c\<lparr>free_requests := free_requests c \<union> set (take k xs),
               requests_in_flight :=
                 (\<lambda>x. if x \<in> set (take k xs) then None else requests_in_flight c x)\<rparr>"
proof (induction xs arbitrary: c acc)
  case Nil
  then show ?case by simp
next
  case (Cons x xs)
  show ?case
  proof (cases "requests_in_flight c x")
    case None
    with Cons.prems have "e = InvalidRequest x" "c' = c" by simp_all
    with None have "0 < length (x # xs) \<and> e = InvalidRequest ((x # xs) ! 0)
       \<and> distinct (take 0 (x # xs))
       \<and> set (take 0 (x # xs)) \<subseteq> dom (requests_in_flight c)
       \<and> (x # xs) ! 0 \<notin> dom (requests_in_flight c) - set (take 0 (x # xs))
       \<and> c' = c\<lparr>free_requests := free_requests c \<union> set (take 0 (x # xs)),
               requests_in_flight :=
                 (\<lambda>y. if y \<in> set (take 0 (x # xs)) then None else requests_in_flight c y)\<rparr>"
      by (simp add: domIff)
    then show ?thesis by blast
  next
    case (Some r)
    let ?c1 = "c\<lparr>free_requests := insert x (free_requests c),
                 requests_in_flight := (requests_in_flight c)(x := None)\<rparr>"
    from Cons.prems Some have "waitall_release ?c1 xs (acc @ [r]) = (Inl e, c')"
      by simp
    from Cons.IH [OF this] obtain k where
      k: "k < length xs" "e = InvalidRequest (xs ! k)"
        "distinct (take k xs)"
        "set (take k xs) \<subseteq> dom (requests_in_flight ?c1)"
        "xs ! k \<notin> dom (requests_in_flight ?c1) - set (take k xs)"
        "c' = ?c1\<lparr>free_requests := free_requests ?c1 \<union> set (take k xs),
               requests_in_flight :=
                 (\<lambda>y. if y \<in> set (take k xs) then None else requests_in_flight ?c1 y)\<rparr>"
      by blast
    have f: "(\<lambda>y. if y \<in> set (take k xs) then None else requests_in_flight ?c1 y)
           = (\<lambda>y. if y \<in> set (take (Suc k) (x # xs)) then None else requests_in_flight c y)"
      by (auto simp: fun_eq_iff)
    from k(4) have nx: "x \<notin> set (take k xs)" by auto
    from k(4) have sub: "set (take k xs) \<subseteq> dom (requests_in_flight c)"
      by (auto split: if_splits)
    from k(5) have nk: "xs ! k \<notin> dom (requests_in_flight c) - insert x (set (take k xs))"
      by (auto split: if_splits)
    from k(1,2,3,6) Some f nx sub nk
    have "Suc k < length (x # xs) \<and> e = InvalidRequest ((x # xs) ! Suc k)
       \<and> distinct (take (Suc k) (x # xs))
       \<and> set (take (Suc k) (x # xs)) \<subseteq> dom (requests_in_flight c)
       \<and> (x # xs) ! Suc k \<notin> dom (requests_in_flight c) - set (take (Suc k) (x # xs))
       \<and> c' = c\<lparr>free_requests := free_requests c \<union> set (take (Suc k) (x # xs)),
               requests_in_flight :=
                 (\<lambda>y. if y \<in> set (take (Suc k) (x # xs)) then None
                      else requests_in_flight c y)\<rparr>"
      by (auto simp: insert_commute)
    then show ?thesis by blast
  qed
qed


section \<open>A waitall that fails on an invalid request\<close>

text \<open>
  C10: a \<open>waitall\<close> that fails with the invalid-request error is not atomic. Let \<open>k\<close> be
  the position at which the lookup fails: the identifiers before it are distinct keys of
  the table, and the identifier at \<open>k\<close> is not a key of the table (or was one and stands
  at an earlier position too, so that the loop has erased it). Then the call fails at
  \<open>k\<close> with the identifiers at the positions \<open>0..k-1\<close> erased from the table and inserted
  into the free set. The transport after the call differs from the one before only in the
  time that was read: no progress call was made and no request was cleaned up.
\<close>

theorem waitall_invalid_request_not_atomic:
  assumes "p2p_enabled c" "ucp_worker c \<noteq> 0" "clock w = t # ts"
    and "k < length xs" "distinct (take k xs)"
    and "set (take k xs) \<subseteq> dom (requests_in_flight c)"
    and "xs ! k \<notin> dom (requests_in_flight c) - set (take k xs)"
  shows "waitall c xs w =
           Some (Inl (InvalidRequest (xs ! k)),
                 c\<lparr>free_requests := free_requests c \<union> set (take k xs),
                   requests_in_flight :=
                     (\<lambda>x. if x \<in> set (take k xs) then None else requests_in_flight c x)\<rparr>,
                 w\<lparr>clock := ts\<rparr>)"
  using assms(1-3) waitall_release_fails_at [OF assms(4-7), of "[]"]
  by (simp add: waitall_def UCX_ENABLED_def time_NULL_def)

theorem waitall_invalid_request_not_atomic_witness:
  "requests_in_flight mock_two 0 = Some (mock_request 500)
   \<and> requests_in_flight mock_two 7 = None
   \<and> waitall mock_two [0, 7, 1] mock_ucx_p2 =
       Some (Inl (InvalidRequest 7),
             mock_two\<lparr>free_requests := {0},
               requests_in_flight := [1 \<mapsto> mock_request 501]\<rparr>,
             mock_ucx_p2\<lparr>clock := [1, 2, 3, 13]\<rparr>)
   \<and> progress_results (mock_ucx_p2\<lparr>clock := [1, 2, 3, 13]\<rparr>) = progress_results mock_ucx_p2
   \<and> freed (mock_ucx_p2\<lparr>clock := [1, 2, 3, 13]\<rparr>) = []"
proof -
  have 1: "p2p_enabled mock_two" "ucp_worker mock_two \<noteq> 0"
    "clock mock_ucx_p2 = 0 # [1, 2, 3, 13]"
    by (simp_all add: mock_defs)
  have 2: "(1::nat) < length [0, 7, 1 :: request_t]"
    "distinct (take 1 [0, 7, 1 :: request_t])"
    "set (take 1 [0, 7, 1 :: request_t]) \<subseteq> dom (requests_in_flight mock_two)"
    "[0, 7, 1 :: request_t] ! 1 \<notin> dom (requests_in_flight mock_two) - set (take 1 [0, 7, 1])"
    by (simp_all add: mock_defs)
  have 3: "(\<lambda>x. if x = 0 then None else requests_in_flight mock_two x)
             = [1 \<mapsto> mock_request 501]"
    by (auto simp: fun_eq_iff mock_defs)
  from waitall_invalid_request_not_atomic [OF 1 2] 3
  show ?thesis by (simp add: mock_defs)
qed


section \<open>A waitall that times out\<close>

text \<open>
  C2, as amended: if \<open>waitall\<close> fails with the timeout, every identifier passed to it,
  completed or not, has been released: it is in the set of free identifiers and not in
  the table of requests in flight, and the next allocation takes its identifier from the
  free set, not from the counter.
\<close>

theorem waitall_timeout_releases_all:
  assumes "waitall c xs w = Some (Inl TimedOut, c', w')"
  shows "xs \<noteq> []
       \<and> free_requests c' = free_requests c \<union> set xs
       \<and> (\<forall>x \<in> set xs. requests_in_flight c x \<noteq> None \<and> requests_in_flight c' x = None)
       \<and> next_request_id c' = next_request_id c
       \<and> get_request_id bgn c' =
           (bgn (free_requests c'),
            c'\<lparr>free_requests := free_requests c' - {bgn (free_requests c')}\<rparr>)"
proof -
  from assms have en: "p2p_enabled c" "ucp_worker c \<noteq> 0"
    by (auto simp: waitall_def split: if_splits)
  from assms en obtain start w1 where t: "time_NULL w = Some (start, w1)"
    by (auto simp: waitall_def UCX_ENABLED_def split: option.splits)
  obtain r c1 where rel: "waitall_release c xs [] = (r, c1)"
    by force
  from assms en t rel waitall_release_Inl [of c xs "[]" _ c1] obtain rs where
    r: "r = Inr rs" and p: "waitall_poll c1 rs start w1 = Some (Inl TimedOut, w')"
    and c': "c' = c1"
    by (cases r) (auto simp: waitall_def UCX_ENABLED_def split: option.splits)
  note R = waitall_release_Inr [OF rel [unfolded r]]
  from p have "rs \<noteq> []"
    by (auto simp: waitall_poll_Nil)
  with R have ne: "xs \<noteq> []" by auto
  from R c' have f: "free_requests c' = free_requests c \<union> set xs"
    and i: "\<forall>x \<in> set xs. requests_in_flight c x \<noteq> None \<and> requests_in_flight c' x = None"
    and n: "next_request_id c' = next_request_id c"
    by auto
  from f ne have "free_requests c' \<noteq> {}" by auto
  then have "get_request_id bgn c' =
           (bgn (free_requests c'),
            c'\<lparr>free_requests := free_requests c' - {bgn (free_requests c')}\<rparr>)"
    by (simp add: get_request_id_def Let_def)
  with ne f i n show ?thesis by blast
qed

theorem waitall_timeout_releases_all_witness:
  "waitall mock_comms1 [0] mock_ucx1 = Some (Inl TimedOut, mock_comms2, mock_ucx2)
   \<and> free_requests mock_comms2 = {0}
   \<and> requests_in_flight mock_comms1 0 = Some (mock_request 500)
   \<and> requests_in_flight mock_comms2 0 = None
   \<and> get_request_id Min mock_comms2 = (0, mock_comms2\<lparr>free_requests := {}\<rparr>)"
  using waitall_timeout_releases_all [OF mock_waitall, of Min] mock_waitall
  by (simp add: mock_comms2_def mock_comms1_def)

text \<open>
  C2 as stated fails: after the timed-out \<open>waitall\<close> on identifier 0, whose request was
  never completed nor cleaned up, 0 is in the free set and the next \<open>isend\<close> returns it.
\<close>

theorem waitall_timeout_counterexample:
  "isend Min mock_comms 0 4 1 9 mock_ucx = Some (Inr 0, mock_comms1, mock_ucx1)
   \<and> requests_in_flight mock_comms1 0 = Some (mock_request 500)
   \<and> waitall mock_comms1 [0] mock_ucx1 = Some (Inl TimedOut, mock_comms2, mock_ucx2)
   \<and> needs_release (mock_request 500)
   \<and> completed mock_ucx2 (req (mock_request 500)) = 0
   \<and> freed mock_ucx2 = []
   \<and> 0 \<in> free_requests mock_comms2
   \<and> isend Min mock_comms2 0 4 1 9 mock_ucx2 = Some (Inr 0, mock_comms3, mock_ucx3)"
  using mock_isend mock_waitall mock_isend_again
  by (simp add: mock_comms1_def mock_comms2_def mock_request_def mock_ucx2_def mock_ucx1_def
        mock_ucx_def)


section \<open>When waitall releases an identifier\<close>

lemma waitall_success_released:
  assumes "waitall c xs w = Some (Inr (), c', w')"
  shows "waitall_release c xs [] = (Inr (map (the \<circ> requests_in_flight c) xs), c')
       \<and> free_requests c' = free_requests c \<union> set xs
       \<and> (\<forall>x \<in> set xs. requests_in_flight c x \<noteq> None \<and> requests_in_flight c' x = None)
       \<and> mset (freed w') = mset (freed w) + mset (map (the \<circ> requests_in_flight c) xs)"
proof -
  from assms have en: "p2p_enabled c" "ucp_worker c \<noteq> 0"
    by (auto simp: waitall_def split: if_splits)
  from assms en obtain start w1 where t: "time_NULL w = Some (start, w1)"
    by (auto simp: waitall_def UCX_ENABLED_def split: option.splits)
  obtain r c1 where rel: "waitall_release c xs [] = (r, c1)"
    by force
  from assms en t rel obtain rs where
    r: "r = Inr rs" and p: "waitall_poll c1 rs start w1 = Some (Inr (), w')"
    and c': "c' = c1"
    by (cases r) (auto simp: waitall_def UCX_ENABLED_def split: option.splits)
  note R = waitall_release_Inr [OF rel [unfolded r]]
  from R have rs: "rs = map (the \<circ> requests_in_flight c) xs" by simp
  from R c' have f: "free_requests c' = free_requests c \<union> set xs"
    and i: "\<forall>x \<in> set xs. requests_in_flight c x \<noteq> None \<and> requests_in_flight c' x = None"
    by auto
  from waitall_poll_freed [OF p] time_NULL_freed [OF t] rs
  have m: "mset (freed w') = mset (freed w) + mset (map (the \<circ> requests_in_flight c) xs)"
    by simp
  from rel r rs c' f i m show ?thesis by simp
qed

lemma allocated_not_in_flight:
  assumes "free_requests c \<inter> dom (requests_in_flight c) = {}"
    and "\<forall>x \<in> dom (requests_in_flight c). x < next_request_id c"
    and "free_requests c \<noteq> {} \<longrightarrow> bgn (free_requests c) \<in> free_requests c"
    and "get_request_id bgn c = (y, c1)"
  shows "y \<notin> dom (requests_in_flight c)"
  using get_request_id_cases [OF assms(4)] assms(1-3) by auto

lemma mock_comms1_fields:
  "dom (requests_in_flight mock_comms1) = {0}"
  "free_requests mock_comms1 = {}"
  "next_request_id mock_comms1 = 1"
  by (simp_all add: mock_comms1_def mock_comms_def std_comms_p2p_def)

text \<open>
  C1, as amended. For every \<open>waitall\<close> call that passes the configuration checks, whatever
  its outcome (success, timeout, request error, invalid request), the communicator it
  leaves is the one its first loop produced: the identifiers at the positions before the
  first failing lookup (all of them when no lookup fails) are erased from the table of
  requests in flight and inserted into the free set, and the polling loop, which runs
  only when no lookup fails and starts from that communicator, changes neither. When the
  lookup at position \<open>k\<close> fails, no progress call was made and no request cleaned up.
  If the call returns successfully, the requests of the named identifiers were handed to
  the clean-up, each once, and each was observed complete: it needs no release, or its
  \<open>completed\<close> flag was 1 after one of the progress calls made during this call.
  An \<open>isend\<close> or \<open>irecv\<close> never returns an identifier that is a key of the table of
  requests in flight, when the free set is disjoint from the keys and the keys are below
  the counter.
\<close>

theorem request_id_release_and_reuse:
  "(p2p_enabled c \<and> ucp_worker c \<noteq> 0 \<and> waitall c xs w = Some (res, c', w') \<longrightarrow>
      c' = snd (waitall_release c xs [])
      \<and> (\<exists>k \<le> length xs.
            distinct (take k xs)
            \<and> set (take k xs) \<subseteq> dom (requests_in_flight c)
            \<and> free_requests c' = free_requests c \<union> set (take k xs)
            \<and> requests_in_flight c' =
                (\<lambda>x. if x \<in> set (take k xs) then None else requests_in_flight c x)
            \<and> (k < length xs \<longrightarrow>
                 xs ! k \<notin> dom (requests_in_flight c) - set (take k xs)
                 \<and> res = Inl (InvalidRequest (xs ! k))
                 \<and> progress_results w' = progress_results w \<and> freed w' = freed w)
            \<and> (k = length xs \<longrightarrow>
                 (\<exists>start w1. time_NULL w = Some (start, w1)
                    \<and> waitall_poll c' (map (the \<circ> requests_in_flight c) xs) start w1
                        = Some (res, w')))))
   \<and> (waitall c xs w = Some (Inr (), c', w') \<longrightarrow>
      mset (freed w') = mset (freed w) + mset (map (the \<circ> requests_in_flight c) xs)
      \<and> (\<forall>x \<in> set xs. \<exists>r. requests_in_flight c x = Some r
            \<and> (\<not> needs_release r
               \<or> (\<exists>j. 0 < j
                     \<and> j \<le> length (progress_results w) - length (progress_results w')
                     \<and> write_flags (concat (map snd (take j (progress_results w))))
                          (completed w) (req r) = 1))))
   \<and> (free_requests c \<inter> dom (requests_in_flight c) = {}
      \<and> (\<forall>x \<in> dom (requests_in_flight c). x < next_request_id c)
      \<and> (free_requests c \<noteq> {} \<longrightarrow> bgn (free_requests c) \<in> free_requests c)
      \<and> (isend bgn c buf sz peer tag w = Some (Inr y, c1, w1)
         \<or> irecv bgn c buf sz peer tag w = Some (Inr y, c1, w1)) \<longrightarrow>
      y \<notin> dom (requests_in_flight c))"
proof (intro conjI impI)
  assume a: "free_requests c \<inter> dom (requests_in_flight c) = {}
      \<and> (\<forall>x \<in> dom (requests_in_flight c). x < next_request_id c)
      \<and> (free_requests c \<noteq> {} \<longrightarrow> bgn (free_requests c) \<in> free_requests c)
      \<and> (isend bgn c buf sz peer tag w = Some (Inr y, c1, w1)
         \<or> irecv bgn c buf sz peer tag w = Some (Inr y, c1, w1))"
  obtain x c2 where g: "get_request_id bgn c = (x, c2)" by force
  from a have "isend bgn c buf sz peer tag w = Some (Inr y, c1, w1)
         \<or> irecv bgn c buf sz peer tag w = Some (Inr y, c1, w1)"
    by simp
  then have "y = x"
  proof
    assume "isend bgn c buf sz peer tag w = Some (Inr y, c1, w1)"
    from isend_returns_allocated [OF g this] show ?thesis by simp
  next
    assume "irecv bgn c buf sz peer tag w = Some (Inr y, c1, w1)"
    from irecv_returns_allocated [OF g this] show ?thesis by simp
  qed
  moreover have "x \<notin> dom (requests_in_flight c)"
    using a by (intro allocated_not_in_flight [OF _ _ _ g]) simp_all
  ultimately show "y \<notin> dom (requests_in_flight c)"
    by simp
next
  assume a: "p2p_enabled c \<and> ucp_worker c \<noteq> 0 \<and> waitall c xs w = Some (res, c', w')"
  then obtain start w1 where t: "time_NULL w = Some (start, w1)"
    by (auto simp: waitall_def UCX_ENABLED_def split: option.splits)
  obtain r cr where rel: "waitall_release c xs [] = (r, cr)"
    by force
  from a t rel have c': "c' = cr"
    by (auto simp: waitall_def UCX_ENABLED_def split: option.splits sum.splits)
  with rel show "c' = snd (waitall_release c xs [])" by simp
  show "\<exists>k \<le> length xs.
            distinct (take k xs)
            \<and> set (take k xs) \<subseteq> dom (requests_in_flight c)
            \<and> free_requests c' = free_requests c \<union> set (take k xs)
            \<and> requests_in_flight c' =
                (\<lambda>x. if x \<in> set (take k xs) then None else requests_in_flight c x)
            \<and> (k < length xs \<longrightarrow>
                 xs ! k \<notin> dom (requests_in_flight c) - set (take k xs)
                 \<and> res = Inl (InvalidRequest (xs ! k))
                 \<and> progress_results w' = progress_results w \<and> freed w' = freed w)
            \<and> (k = length xs \<longrightarrow>
                 (\<exists>start w1. time_NULL w = Some (start, w1)
                    \<and> waitall_poll c' (map (the \<circ> requests_in_flight c) xs) start w1
                        = Some (res, w')))"
  proof (cases r)
    case (Inl e)
    from a t rel Inl have res: "res = Inl e" and w': "w' = w1"
      by (auto simp: waitall_def UCX_ENABLED_def)
    from waitall_release_Inl_at [OF rel [unfolded Inl]] obtain k where
      k: "k < length xs" "e = InvalidRequest (xs ! k)"
        "distinct (take k xs)"
        "set (take k xs) \<subseteq> dom (requests_in_flight c)"
        "xs ! k \<notin> dom (requests_in_flight c) - set (take k xs)"
        "cr = c\<lparr>free_requests := free_requests c \<union> set (take k xs),
               requests_in_flight :=
                 (\<lambda>x. if x \<in> set (take k xs) then None else requests_in_flight c x)\<rparr>"
      by blast
    have "progress_results w1 = progress_results w" "freed w1 = freed w"
      using t by (auto simp: time_NULL_def split: list.splits)
    with k c' res w' have "k \<le> length xs
            \<and> distinct (take k xs)
            \<and> set (take k xs) \<subseteq> dom (requests_in_flight c)
            \<and> free_requests c' = free_requests c \<union> set (take k xs)
            \<and> requests_in_flight c' =
                (\<lambda>x. if x \<in> set (take k xs) then None else requests_in_flight c x)
            \<and> (k < length xs \<longrightarrow>
                 xs ! k \<notin> dom (requests_in_flight c) - set (take k xs)
                 \<and> res = Inl (InvalidRequest (xs ! k))
                 \<and> progress_results w' = progress_results w \<and> freed w' = freed w)
            \<and> (k = length xs \<longrightarrow>
                 (\<exists>start w1. time_NULL w = Some (start, w1)
                    \<and> waitall_poll c' (map (the \<circ> requests_in_flight c) xs) start w1
                        = Some (res, w')))"
      by simp
    then show ?thesis by blast
  next
    case (Inr rs)
    note R = waitall_release_Inr [OF rel [unfolded Inr]]
    from a t rel Inr c' have p: "waitall_poll c' rs start w1 = Some (res, w')"
      by (auto simp: waitall_def UCX_ENABLED_def split: option.splits)
    from R c' p t have "length xs \<le> length xs
            \<and> distinct (take (length xs) xs)
            \<and> set (take (length xs) xs) \<subseteq> dom (requests_in_flight c)
            \<and> free_requests c' = free_requests c \<union> set (take (length xs) xs)
            \<and> requests_in_flight c' =
                (\<lambda>x. if x \<in> set (take (length xs) xs) then None else requests_in_flight c x)
            \<and> (length xs < length xs \<longrightarrow>
                 xs ! length xs \<notin> dom (requests_in_flight c) - set (take (length xs) xs)
                 \<and> res = Inl (InvalidRequest (xs ! length xs))
                 \<and> progress_results w' = progress_results w \<and> freed w' = freed w)
            \<and> (length xs = length xs \<longrightarrow>
                 (\<exists>start w1. time_NULL w = Some (start, w1)
                    \<and> waitall_poll c' (map (the \<circ> requests_in_flight c) xs) start w1
                        = Some (res, w')))"
      by simp
    then show ?thesis by blast
  qed
next
  assume s: "waitall c xs w = Some (Inr (), c', w')"
  from waitall_success_released [OF s]
  show "mset (freed w') = mset (freed w) + mset (map (the \<circ> requests_in_flight c) xs)"
    by simp
  from s have en: "p2p_enabled c" "ucp_worker c \<noteq> 0"
    by (auto simp: waitall_def split: if_splits)
  from s en obtain start w1 where t: "time_NULL w = Some (start, w1)"
    by (auto simp: waitall_def UCX_ENABLED_def split: option.splits)
  obtain r cr where rel: "waitall_release c xs [] = (r, cr)"
    by force
  from s en t rel obtain rs where
    r: "r = Inr rs" and p: "waitall_poll cr rs start w1 = Some (Inr (), w')"
    by (cases r) (auto simp: waitall_def UCX_ENABLED_def split: option.splits)
  note R = waitall_release_Inr [OF rel [unfolded r]]
  from waitall_poll_observed [OF advanced_time_NULL [OF advanced_0 t] p]
  obtain m dn where m: "advanced w m w'" "mset dn = mset rs"
    "\<forall>r \<in> set dn. observed w m r"
    by blast
  from m(2) have sd: "set dn = set rs" by (metis set_mset_mset)
  from m(1) have len: "m = length (progress_results w) - length (progress_results w')"
    by (simp add: advanced_def)
  show "\<forall>x \<in> set xs. \<exists>r. requests_in_flight c x = Some r
            \<and> (\<not> needs_release r
               \<or> (\<exists>j. 0 < j
                     \<and> j \<le> length (progress_results w) - length (progress_results w')
                     \<and> write_flags (concat (map snd (take j (progress_results w))))
                          (completed w) (req r) = 1))"
  proof
    fix x assume x: "x \<in> set xs"
    with R obtain q where q: "requests_in_flight c x = Some q" by auto
    with x R have "q \<in> set rs" by force
    with sd m(3) have "observed w m q" by simp
    with q len show "\<exists>r. requests_in_flight c x = Some r
            \<and> (\<not> needs_release r
               \<or> (\<exists>j. 0 < j
                     \<and> j \<le> length (progress_results w) - length (progress_results w')
                     \<and> write_flags (concat (map snd (take j (progress_results w))))
                          (completed w) (req r) = 1))"
      by (simp add: observed_def flags_after_def)
  qed
qed

theorem request_id_release_and_reuse_witness:
  "p2p_enabled mock_two \<and> ucp_worker mock_two = 200
   \<and> waitall mock_two [0] mock_ucx_p2 = Some (Inl TimedOut, mock_two_timed_out, mock_ucx_q)
   \<and> mock_two_timed_out = snd (waitall_release mock_two [0] [])
   \<and> free_requests mock_two_timed_out = {0}
   \<and> waitall mock_comms1 [0] mock_ucx_done = Some (Inr (), mock_comms2, mock_ucx_done1)
   \<and> requests_in_flight mock_comms1 0 = Some (mock_request 500)
   \<and> freed mock_ucx_done = []
   \<and> freed mock_ucx_done1 = [mock_request 500]
   \<and> needs_release (mock_request 500)
   \<and> length (progress_results mock_ucx_done) - length (progress_results mock_ucx_done1) = 2
   \<and> write_flags (concat (map snd (take 1 (progress_results mock_ucx_done))))
        (completed mock_ucx_done) (req (mock_request 500)) = 1
   \<and> dom (requests_in_flight mock_comms1) = {0}
   \<and> next_request_id mock_comms1 = 1
   \<and> irecv Min mock_comms1 0 4 1 9 mock_ucx_p1 = Some (Inr 1, mock_two, mock_ucx_p2)
   \<and> 1 \<notin> dom (requests_in_flight mock_comms1)"
proof -
  note f = mock_comms1_fields
  have e: "p2p_enabled mock_two" "ucp_worker mock_two = 200"
    by (simp_all add: mock_defs)
  have a: "p2p_enabled mock_two \<and> ucp_worker mock_two \<noteq> 0
           \<and> waitall mock_two [0] mock_ucx_p2 = Some (Inl TimedOut, mock_two_timed_out, mock_ucx_q)"
    using e mock_q_waitall by simp
  have h: "free_requests mock_comms1 \<inter> dom (requests_in_flight mock_comms1) = {}
      \<and> (\<forall>x \<in> dom (requests_in_flight mock_comms1). x < next_request_id mock_comms1)
      \<and> (free_requests mock_comms1 \<noteq> {} \<longrightarrow>
           Min (free_requests mock_comms1) \<in> free_requests mock_comms1)
      \<and> (isend Min mock_comms1 0 4 1 9 mock_ucx_p1 = Some (Inr 1, mock_two, mock_ucx_p2)
         \<or> irecv Min mock_comms1 0 4 1 9 mock_ucx_p1 = Some (Inr 1, mock_two, mock_ucx_p2))"
    using mock_p_irecv by (simp add: f)
  have 1: "requests_in_flight mock_comms1 0 = Some (mock_request 500)"
    "freed mock_ucx_done = []" "freed mock_ucx_done1 = [mock_request 500]"
    "needs_release (mock_request 500)"
    "length (progress_results mock_ucx_done) - length (progress_results mock_ucx_done1) = 2"
    "write_flags (concat (map snd (take 1 (progress_results mock_ucx_done))))
        (completed mock_ucx_done) (req (mock_request 500)) = 1"
    "free_requests mock_two_timed_out = {0}"
    by (simp_all add: mock_comms1_def mock_ucx_done_def mock_ucx_done1_def
        mock_ucx1_def mock_ucx_def mock_request_def mock_two_timed_out_def)
  note A = request_id_release_and_reuse [THEN conjunct1, rule_format, OF a, THEN conjunct1]
  note B = request_id_release_and_reuse [THEN conjunct2, THEN conjunct1, rule_format,
             OF mock_waitall_done, THEN conjunct1]
  note C = request_id_release_and_reuse [THEN conjunct2, THEN conjunct2, rule_format, OF h]
  from e mock_q_waitall A B mock_waitall_done mock_p_irecv 1 C f show ?thesis
    by simp
qed

text \<open>
  C1 as stated fails: identifier 0 is named in a \<open>waitall\<close> that times out; its operation
  was never observed complete nor cleaned up, yet 0 is the one free identifier and the next
  \<open>irecv\<close> returns it, whichever element \<open>begin()\<close> yields.
\<close>

theorem released_while_pending_counterexample:
  "isend Min mock_comms 0 4 1 9 mock_ucx_p = Some (Inr 0, mock_comms1, mock_ucx_p1)
   \<and> irecv Min mock_comms1 0 4 1 9 mock_ucx_p1 = Some (Inr 1, mock_two, mock_ucx_p2)
   \<and> requests_in_flight mock_two 0 = Some (mock_request 500)
   \<and> waitall mock_two [0] mock_ucx_p2 = Some (Inl TimedOut, mock_two_timed_out, mock_ucx_q)
   \<and> needs_release (mock_request 500)
   \<and> completed mock_ucx_q (req (mock_request 500)) = 0
   \<and> freed mock_ucx_q = []
   \<and> free_requests mock_two_timed_out = {0}
   \<and> irecv Min mock_two_timed_out 0 4 1 9 mock_ucx_q
       = Some (Inr 0, mock_two_reused, mock_ucx_q1)
   \<and> irecv Max mock_two_timed_out 0 4 1 9 mock_ucx_q
       = Some (Inr 0, mock_two_reused, mock_ucx_q1)"
  using mock_p_isend mock_p_irecv mock_q_waitall mock_q_irecv_Min mock_q_irecv_Max
  by (simp add: mock_defs)


section \<open>The broadcasts of allgatherv\<close>

lemma allgatherv_loop_all_succeed:
  assumes "0 \<le> root" "n = nat (size_m c - root)"
    and "take n (collective_results d) = replicate n ncclSuccess"
  shows "allgatherv_loop c sendbuf recvbuf recvcounts displs datatype strm root d =
           Some (Inr (),
                 d\<lparr>collective_results := drop n (collective_results d),
                   calls := calls d @
                     map (\<lambda>i. NcclBroadcast sendbuf
                            (recvbuf + of_int (displs (nat root + i))
                                       * of_nat (getDatatypeSize datatype))
                            (recvcounts (nat root + i)) (getNCCLDatatype datatype)
                            (root + int i) (nccl_comm c) strm ncclSuccess)
                         [0..<n]\<rparr>)"
  using assms
proof (induction n arbitrary: root d)
  case 0
  then show ?case
    by (simp add: allgatherv_loop.simps [of _ _ _ _ _ _ _ root d])
next
  case (Suc n)
  from Suc.prems have lt: "root < size_m c" by simp
  from Suc.prems(3) obtain rs where rs: "collective_results d = ncclSuccess # rs"
    and t: "take n rs = replicate n ncclSuccess"
    by (cases "collective_results d") auto
  let ?ev = "NcclBroadcast sendbuf
               (recvbuf + of_int (displs (nat root)) * of_nat (getDatatypeSize datatype))
               (recvcounts (nat root)) (getNCCLDatatype datatype) root (nccl_comm c) strm
               ncclSuccess"
  let ?d1 = "d\<lparr>collective_results := rs, calls := calls d @ [?ev]\<rparr>"
  have step: "allgatherv_loop c sendbuf recvbuf recvcounts displs datatype strm root d =
              allgatherv_loop c sendbuf recvbuf recvcounts displs datatype strm (root + 1) ?d1"
    using lt rs
    by (simp add: allgatherv_loop.simps [of _ _ _ _ _ _ _ root d] NCCL_CHECK_def
          nccl_collective_def)
  have n: "n = nat (size_m c - (root + 1))" using Suc.prems by simp
  have r1: "0 \<le> root + 1" using Suc.prems by simp
  have t1: "take n (collective_results ?d1) = replicate n ncclSuccess" using t by simp
  have nr: "nat (root + 1) = Suc (nat root)" using Suc.prems by simp
  show ?case
    unfolding step Suc.IH [OF r1 n t1]
    using rs nr by (simp add: map_upt_Suc del: upt_Suc)
qed


lemma allgatherv_loop_fails_at:
  assumes "0 \<le> root" "k < nat (size_m c - root)"
    and "take k (collective_results d) = replicate k ncclSuccess"
    and "k < length (collective_results d)" "collective_results d ! k \<noteq> ncclSuccess"
  shows "allgatherv_loop c sendbuf recvbuf recvcounts displs datatype strm root d =
           Some (Inl (NcclCheckFailed (collective_results d ! k)),
                 d\<lparr>collective_results := drop (Suc k) (collective_results d),
                   calls := calls d @
                     map (\<lambda>i. NcclBroadcast sendbuf
                            (recvbuf + of_int (displs (nat root + i))
                                       * of_nat (getDatatypeSize datatype))
                            (recvcounts (nat root + i)) (getNCCLDatatype datatype)
                            (root + int i) (nccl_comm c) strm ncclSuccess)
                         [0..<k]
                     @ [NcclBroadcast sendbuf
                          (recvbuf + of_int (displs (nat root + k))
                                     * of_nat (getDatatypeSize datatype))
                          (recvcounts (nat root + k)) (getNCCLDatatype datatype)
                          (root + int k) (nccl_comm c) strm (collective_results d ! k)]\<rparr>)"
  using assms
proof (induction k arbitrary: root d)
  case 0
  from "0.prems" obtain r rs where rs: "collective_results d = r # rs" "r \<noteq> ncclSuccess"
    by (cases "collective_results d") auto
  from "0.prems" have lt: "root < size_m c" by simp
  from lt rs show ?case
    by (auto simp: allgatherv_loop.simps [of _ _ _ _ _ _ _ root d] NCCL_CHECK_def
          nccl_collective_def)
next
  case (Suc k)
  from Suc.prems have lt: "root < size_m c" by simp
  from Suc.prems(3,4) obtain rs where rs: "collective_results d = ncclSuccess # rs"
    and t: "take k rs = replicate k ncclSuccess"
    by (cases "collective_results d") auto
  let ?ev = "NcclBroadcast sendbuf
               (recvbuf + of_int (displs (nat root)) * of_nat (getDatatypeSize datatype))
               (recvcounts (nat root)) (getNCCLDatatype datatype) root (nccl_comm c) strm
               ncclSuccess"
  let ?d1 = "d\<lparr>collective_results := rs, calls := calls d @ [?ev]\<rparr>"
  have step: "allgatherv_loop c sendbuf recvbuf recvcounts displs datatype strm root d =
              allgatherv_loop c sendbuf recvbuf recvcounts displs datatype strm (root + 1) ?d1"
    using lt rs
    by (simp add: allgatherv_loop.simps [of _ _ _ _ _ _ _ root d] NCCL_CHECK_def
          nccl_collective_def)
  have r1: "0 \<le> root + 1" using Suc.prems by simp
  have k1: "k < nat (size_m c - (root + 1))" using Suc.prems by simp
  have t1: "take k (collective_results ?d1) = replicate k ncclSuccess" using t by simp
  have l1: "k < length (collective_results ?d1)" using Suc.prems rs by simp
  have f1: "collective_results ?d1 ! k \<noteq> ncclSuccess" using Suc.prems rs by simp
  have nr: "nat (root + 1) = Suc (nat root)" using Suc.prems by simp
  show ?case
    unfolding step Suc.IH [OF r1 k1 t1 l1 f1]
    using rs nr by (simp add: map_upt_Suc del: upt_Suc)
qed

text \<open>
  C5, as amended: on a cluster of size \<open>N\<close>, when every broadcast reports success,
  \<open>allgatherv\<close> issues exactly \<open>N\<close> broadcasts, for the roots \<open>0, 1, ..., N-1\<close> in this
  order; the one for root \<open>r\<close> broadcasts \<open>recvcounts[r]\<close> elements of the datatype into
  the receive buffer at the byte offset \<open>displs[r] * getDatatypeSize(datatype)\<close> (the
  address is computed modulo \<open>2^64\<close>). When the broadcast for root \<open>k\<close> is the first to
  report a failure, the operation ends there with that failure: the broadcasts for the
  roots \<open>0..k\<close> have been issued and none for a later root.
\<close>

theorem allgatherv_broadcasts:
  "(take (nat (size_m c)) (collective_results d) = replicate (nat (size_m c)) ncclSuccess \<longrightarrow>
      allgatherv c sendbuf recvbuf recvcounts displs datatype strm d =
        Some (Inr (),
              d\<lparr>collective_results := drop (nat (size_m c)) (collective_results d),
                calls := calls d @
                  map (\<lambda>r. NcclBroadcast sendbuf
                         (recvbuf + of_int (displs r) * of_nat (getDatatypeSize datatype))
                         (recvcounts r) (getNCCLDatatype datatype) (int r) (nccl_comm c) strm
                         ncclSuccess)
                      [0..<nat (size_m c)]\<rparr>))
   \<and> (k < nat (size_m c) \<and> take k (collective_results d) = replicate k ncclSuccess
      \<and> k < length (collective_results d) \<and> collective_results d ! k \<noteq> ncclSuccess \<longrightarrow>
      allgatherv c sendbuf recvbuf recvcounts displs datatype strm d =
        Some (Inl (NcclCheckFailed (collective_results d ! k)),
              d\<lparr>collective_results := drop (Suc k) (collective_results d),
                calls := calls d @
                  map (\<lambda>r. NcclBroadcast sendbuf
                         (recvbuf + of_int (displs r) * of_nat (getDatatypeSize datatype))
                         (recvcounts r) (getNCCLDatatype datatype) (int r) (nccl_comm c) strm
                         ncclSuccess)
                      [0..<k]
                  @ [NcclBroadcast sendbuf
                       (recvbuf + of_int (displs k) * of_nat (getDatatypeSize datatype))
                       (recvcounts k) (getNCCLDatatype datatype) (int k) (nccl_comm c) strm
                       (collective_results d ! k)]\<rparr>))"
proof (intro conjI impI)
  assume "take (nat (size_m c)) (collective_results d) = replicate (nat (size_m c)) ncclSuccess"
  from allgatherv_loop_all_succeed [of 0 "nat (size_m c)" c d, OF _ _ this]
  show "allgatherv c sendbuf recvbuf recvcounts displs datatype strm d =
        Some (Inr (),
              d\<lparr>collective_results := drop (nat (size_m c)) (collective_results d),
                calls := calls d @
                  map (\<lambda>r. NcclBroadcast sendbuf
                         (recvbuf + of_int (displs r) * of_nat (getDatatypeSize datatype))
                         (recvcounts r) (getNCCLDatatype datatype) (int r) (nccl_comm c) strm
                         ncclSuccess)
                      [0..<nat (size_m c)]\<rparr>)"
    by (simp add: allgatherv_def)
next
  assume a: "k < nat (size_m c) \<and> take k (collective_results d) = replicate k ncclSuccess
      \<and> k < length (collective_results d) \<and> collective_results d ! k \<noteq> ncclSuccess"
  from allgatherv_loop_fails_at [of 0 k c d] a
  show "allgatherv c sendbuf recvbuf recvcounts displs datatype strm d =
        Some (Inl (NcclCheckFailed (collective_results d ! k)),
              d\<lparr>collective_results := drop (Suc k) (collective_results d),
                calls := calls d @
                  map (\<lambda>r. NcclBroadcast sendbuf
                         (recvbuf + of_int (displs r) * of_nat (getDatatypeSize datatype))
                         (recvcounts r) (getNCCLDatatype datatype) (int r) (nccl_comm c) strm
                         ncclSuccess)
                      [0..<k]
                  @ [NcclBroadcast sendbuf
                       (recvbuf + of_int (displs k) * of_nat (getDatatypeSize datatype))
                       (recvcounts k) (getNCCLDatatype datatype) (int k) (nccl_comm c) strm
                       (collective_results d ! k)]\<rparr>)"
    by (simp add: allgatherv_def)
qed

theorem allgatherv_broadcasts_witness:
  "size_m mock_comms = 2
   \<and> allgatherv mock_comms 10 1000 ((!) [2, 3]) ((!) [0, 2]) comms_INT 7 mock_device =
       Some (Inr (),
             mock_device\<lparr>collective_results := [],
               calls := [NcclBroadcast 10 1000 2 ncclInt 0 100 7 ncclSuccess,
                         NcclBroadcast 10 1008 3 ncclInt 1 100 7 ncclSuccess]\<rparr>)
   \<and> allgatherv mock_comms 10 1000 ((!) [2, 3]) ((!) [0, 2]) comms_INT 7 mock_device_failing =
       Some (Inl (NcclCheckFailed (ncclFailure 1)),
             mock_device_failing\<lparr>collective_results := [ncclSuccess],
               calls := [NcclBroadcast 10 1000 2 ncclInt 0 100 7 (ncclFailure 1)]\<rparr>)"
proof -
  have s: "nat (size_m mock_comms) = 2"
    by (simp add: mock_comms_def std_comms_p2p_def)
  have u: "[0..<2] = [0, Suc 0]"
    by (simp add: upt_rec)
  have 1: "take (nat (size_m mock_comms)) (collective_results mock_device)
           = replicate (nat (size_m mock_comms)) ncclSuccess"
    by (simp add: s mock_device_def numeral_2_eq_2)
  have 2: "0 < nat (size_m mock_comms)
           \<and> take 0 (collective_results mock_device_failing) = replicate 0 ncclSuccess
           \<and> 0 < length (collective_results mock_device_failing)
           \<and> collective_results mock_device_failing ! 0 \<noteq> ncclSuccess"
    by (simp add: s mock_device_failing_def mock_device_def)
  from allgatherv_broadcasts [of mock_comms mock_device 10 1000 "(!) [2, 3]" "(!) [0, 2]"
         comms_INT 7 0, THEN conjunct1, rule_format, OF 1]
       allgatherv_broadcasts [of mock_comms mock_device_failing 10 1000 "(!) [2, 3]"
         "(!) [0, 2]" comms_INT 7 0, THEN conjunct2, rule_format, OF 2]
  show ?thesis
    by (simp add: s u mock_device_def mock_device_failing_def mock_comms_def
          std_comms_p2p_def)
qed

text \<open>
  C5 as stated fails: on two ranks, when the broadcast for root 0 reports a failure,
  \<open>allgatherv\<close> has issued one broadcast, not two.
\<close>

theorem allgatherv_stops_counterexample:
  "size_m mock_comms = 2
   \<and> allgatherv mock_comms 10 1000 ((!) [2, 3]) ((!) [0, 2]) comms_INT 7 mock_device_failing =
       Some (Inl (NcclCheckFailed (ncclFailure 1)),
             mock_device_failing\<lparr>collective_results := [ncclSuccess],
               calls := [NcclBroadcast 10 1000 2 ncclInt 0 100 7 (ncclFailure 1)]\<rparr>)
   \<and> length (calls (mock_device_failing\<lparr>collective_results := [ncclSuccess],
               calls := [NcclBroadcast 10 1000 2 ncclInt 0 100 7 (ncclFailure 1)]\<rparr>)) = 1"
  by (simp add: allgatherv_def allgatherv_loop.simps NCCL_CHECK_def nccl_collective_def
        mock_device_def mock_device_failing_def mock_comms_def std_comms_p2p_def)


section \<open>The results of syncStream\<close>

lemma syncStream_done:
  assumes "stream_queries d = e # qs" "e \<noteq> cudaErrorNotReady"
  shows "syncStream c strm d =
           Some (if e = cudaSuccess then commStatusSuccess else commStatusError,
                 d\<lparr>stream_queries := qs, calls := calls d @ [CudaStreamQuery strm e]\<rparr>)"
  using assms by (simp add: syncStream.simps [of c strm d] cudaStreamQuery_def)

lemma syncStream_async_failed:
  assumes "stream_queries d = cudaErrorNotReady # qs" "async_errors d = (r, a) # as"
    "r \<noteq> ncclSuccess"
  shows "syncStream c strm d =
           Some (commStatusError,
                 d\<lparr>stream_queries := qs, async_errors := as,
                   calls := calls d @ [CudaStreamQuery strm cudaErrorNotReady,
                                       NcclCommGetAsyncError (nccl_comm c) r a]\<rparr>)"
  using assms
  by (simp add: syncStream.simps [of c strm d] cudaStreamQuery_def ncclCommGetAsyncError_def)

lemma syncStream_abort_failed:
  assumes "stream_queries d = cudaErrorNotReady # qs"
    "async_errors d = (ncclSuccess, a) # as" "a \<noteq> ncclSuccess"
    "abort_results d = b # bs" "b \<noteq> ncclSuccess"
  shows "syncStream c strm d =
           Some (commStatusAbort,
                 d\<lparr>stream_queries := qs, async_errors := as, abort_results := bs,
                   calls := calls d @ [CudaStreamQuery strm cudaErrorNotReady,
                                       NcclCommGetAsyncError (nccl_comm c) ncclSuccess a,
                                       NcclCommAbort (nccl_comm c) b]\<rparr>)"
  using assms
  by (simp add: syncStream.simps [of c strm d] cudaStreamQuery_def ncclCommGetAsyncError_def
        ncclCommAbort_def)

lemma syncStream_round:
  assumes "stream_queries d = cudaErrorNotReady # qs"
    "async_errors d = (ncclSuccess, a) # as"
    "a \<noteq> ncclSuccess \<Longrightarrow> abort_results d = ncclSuccess # bs"
    "a = ncclSuccess \<Longrightarrow> abort_results d = bs"
  shows "syncStream c strm d =
           syncStream c strm
             (d\<lparr>stream_queries := qs, async_errors := as, abort_results := bs,
                calls := calls d @
                  [CudaStreamQuery strm cudaErrorNotReady,
                   NcclCommGetAsyncError (nccl_comm c) ncclSuccess a]
                  @ (if a \<noteq> ncclSuccess then [NcclCommAbort (nccl_comm c) ncclSuccess]
                     else [])\<rparr>)"
proof (cases "a = ncclSuccess")
  case True
  let ?d2 = "d\<lparr>stream_queries := qs, async_errors := as,
               calls := calls d @ [CudaStreamQuery strm cudaErrorNotReady,
                 NcclCommGetAsyncError (nccl_comm c) ncclSuccess ncclSuccess]\<rparr>"
  have e: "d\<lparr>stream_queries := qs, async_errors := as, abort_results := bs,
                calls := calls d @
                  [CudaStreamQuery strm cudaErrorNotReady,
                   NcclCommGetAsyncError (nccl_comm c) ncclSuccess a]
                  @ (if a \<noteq> ncclSuccess then [NcclCommAbort (nccl_comm c) ncclSuccess]
                     else [])\<rparr> = ?d2"
    using assms(4) True by (cases d) simp
  have "syncStream c strm d = syncStream c strm ?d2"
    using assms(1,2) True
    by (simp add: syncStream.simps [of c strm d] cudaStreamQuery_def
          ncclCommGetAsyncError_def)
  then show ?thesis by (simp only: e)
next
  case False
  with assms show ?thesis
    by (simp add: syncStream.simps [of c strm d] cudaStreamQuery_def
          ncclCommGetAsyncError_def ncclCommAbort_def)
qed

lemma syncStream_pending:
  assumes "stream_queries d = replicate (length fs) cudaErrorNotReady @ qs"
    and "async_errors d = map (Pair ncclSuccess) fs @ as"
    and "abort_results d =
           replicate (length (filter (\<lambda>a. a \<noteq> ncclSuccess) fs)) ncclSuccess @ bs"
  shows "syncStream c strm d =
           syncStream c strm
             (d\<lparr>stream_queries := qs, async_errors := as, abort_results := bs,
                calls := calls d @
                  concat (map (\<lambda>a.
                     [CudaStreamQuery strm cudaErrorNotReady,
                      NcclCommGetAsyncError (nccl_comm c) ncclSuccess a]
                     @ (if a \<noteq> ncclSuccess then [NcclCommAbort (nccl_comm c) ncclSuccess]
                        else [])) fs)\<rparr>)"
  using assms
proof (induction fs arbitrary: d)
  case Nil
  then have "d\<lparr>stream_queries := qs, async_errors := as, abort_results := bs,
               calls := calls d @ []\<rparr> = d"
    by (cases d) simp
  then show ?case by simp
next
  case (Cons a fs)
  let ?bs1 = "replicate (length (filter (\<lambda>a. a \<noteq> ncclSuccess) fs)) ncclSuccess @ bs"
  let ?d1 = "d\<lparr>stream_queries := replicate (length fs) cudaErrorNotReady @ qs,
               async_errors := map (Pair ncclSuccess) fs @ as,
               abort_results := ?bs1,
               calls := calls d @
                  [CudaStreamQuery strm cudaErrorNotReady,
                   NcclCommGetAsyncError (nccl_comm c) ncclSuccess a]
                  @ (if a \<noteq> ncclSuccess then [NcclCommAbort (nccl_comm c) ncclSuccess]
                     else [])\<rparr>"
  have r: "syncStream c strm d = syncStream c strm ?d1"
    using Cons.prems by (intro syncStream_round) auto
  have "syncStream c strm ?d1 =
          syncStream c strm
             (?d1\<lparr>stream_queries := qs, async_errors := as, abort_results := bs,
                calls := calls ?d1 @
                  concat (map (\<lambda>a.
                     [CudaStreamQuery strm cudaErrorNotReady,
                      NcclCommGetAsyncError (nccl_comm c) ncclSuccess a]
                     @ (if a \<noteq> ncclSuccess then [NcclCommAbort (nccl_comm c) ncclSuccess]
                        else [])) fs)\<rparr>)"
    by (rule Cons.IH) simp_all
  with r show ?case by simp
qed


lemma syncStream_last_call:
  "syncStream c strm d = Some (st, d') \<Longrightarrow>
     \<exists>evs ev. calls d' = calls d @ evs @ [ev]
       \<and> (st = commStatusSuccess \<and> ev = CudaStreamQuery strm cudaSuccess
          \<or> st = commStatusError
              \<and> (\<exists>e. e \<noteq> cudaSuccess \<and> e \<noteq> cudaErrorNotReady \<and> ev = CudaStreamQuery strm e)
          \<or> st = commStatusError
              \<and> (\<exists>r a. r \<noteq> ncclSuccess \<and> ev = NcclCommGetAsyncError (nccl_comm c) r a)
          \<or> st = commStatusAbort
              \<and> (\<exists>b. b \<noteq> ncclSuccess \<and> ev = NcclCommAbort (nccl_comm c) b))"
proof (induction c strm d rule: syncStream.induct)
  case (1 c strm d)
  let ?P = "\<lambda>d0 d'. \<exists>evs ev. calls d' = calls d0 @ evs @ [ev]
       \<and> (st = commStatusSuccess \<and> ev = CudaStreamQuery strm cudaSuccess
          \<or> st = commStatusError
              \<and> (\<exists>e. e \<noteq> cudaSuccess \<and> e \<noteq> cudaErrorNotReady \<and> ev = CudaStreamQuery strm e)
          \<or> st = commStatusError
              \<and> (\<exists>r a. r \<noteq> ncclSuccess \<and> ev = NcclCommGetAsyncError (nccl_comm c) r a)
          \<or> st = commStatusAbort
              \<and> (\<exists>b. b \<noteq> ncclSuccess \<and> ev = NcclCommAbort (nccl_comm c) b))"
  note S = syncStream.simps [of c strm d]
  from "1.prems" obtain e d1 where q: "cudaStreamQuery strm d = Some (e, d1)"
    by (auto simp: S split: option.splits)
  have c1: "calls d1 = calls d @ [CudaStreamQuery strm e]"
    using q by (auto simp: cudaStreamQuery_def split: list.splits)
  show ?case
  proof (cases "e = cudaErrorNotReady")
    case False
    with "1.prems" q c1 have "calls d' = calls d @ [] @ [CudaStreamQuery strm e]"
      and "st = (if e = cudaSuccess then commStatusSuccess else commStatusError)"
      by (auto simp: S split: if_splits)
    with False show ?thesis by (cases "e = cudaSuccess") (simp; blast)+
  next
    case True
    with "1.prems" q obtain r a d2 where
      g: "ncclCommGetAsyncError (nccl_comm c) d1 = Some ((r, a), d2)"
      by (auto simp: S split: option.splits)
    have c2: "calls d2 = calls d1 @ [NcclCommGetAsyncError (nccl_comm c) r a]"
      using g by (auto simp: ncclCommGetAsyncError_def split: list.splits)
    show ?thesis
    proof (cases "r = ncclSuccess")
      case False
      with "1.prems" q g True c1 c2 have
        "calls d' = calls d @ [CudaStreamQuery strm e] @ [NcclCommGetAsyncError (nccl_comm c) r a]"
        and "st = commStatusError"
        by (auto simp: S)
      with False show ?thesis by blast
    next
      case r: True
      show ?thesis
      proof (cases "a = ncclSuccess")
        case a: True
        from "1.prems" q g True r a have "syncStream c strm d2 = Some (st, d')"
          by (simp add: S)
        from "1.IH"(2) [OF q refl _ _ g refl refl _ _ this] True r a
        have "?P d2 d'" by simp
        then obtain evs ev where "calls d' = calls d2 @ evs @ [ev]" and
          "(st = commStatusSuccess \<and> ev = CudaStreamQuery strm cudaSuccess
          \<or> st = commStatusError
              \<and> (\<exists>e. e \<noteq> cudaSuccess \<and> e \<noteq> cudaErrorNotReady \<and> ev = CudaStreamQuery strm e)
          \<or> st = commStatusError
              \<and> (\<exists>r a. r \<noteq> ncclSuccess \<and> ev = NcclCommGetAsyncError (nccl_comm c) r a)
          \<or> st = commStatusAbort
              \<and> (\<exists>b. b \<noteq> ncclSuccess \<and> ev = NcclCommAbort (nccl_comm c) b))"
          by blast
        moreover from this c1 c2 have
          "calls d' = calls d @ ([CudaStreamQuery strm e,
              NcclCommGetAsyncError (nccl_comm c) r a] @ evs) @ [ev]"
          by simp
        ultimately show ?thesis by blast
      next
        case a: False
        with "1.prems" q g True r obtain b d3 where
          ab: "ncclCommAbort (nccl_comm c) d2 = Some (b, d3)"
          by (auto simp: S split: option.splits)
        have c3: "calls d3 = calls d2 @ [NcclCommAbort (nccl_comm c) b]"
          using ab by (auto simp: ncclCommAbort_def split: list.splits)
        show ?thesis
        proof (cases "b = ncclSuccess")
          case False
          with "1.prems" q g ab True r a c1 c2 c3 have
            "calls d' = calls d @ [CudaStreamQuery strm e,
                NcclCommGetAsyncError (nccl_comm c) r a] @ [NcclCommAbort (nccl_comm c) b]"
            and "st = commStatusAbort"
            by (auto simp: S)
          with False show ?thesis by blast
        next
          case b: True
          from "1.prems" q g ab True r a b have "syncStream c strm d3 = Some (st, d')"
            by (simp add: S)
          from "1.IH"(1) [OF q refl _ _ g refl refl _ _ ab refl _ this] True r a b
          have "?P d3 d'" by simp
          then obtain evs ev where "calls d' = calls d3 @ evs @ [ev]" and
            "(st = commStatusSuccess \<and> ev = CudaStreamQuery strm cudaSuccess
            \<or> st = commStatusError
                \<and> (\<exists>e. e \<noteq> cudaSuccess \<and> e \<noteq> cudaErrorNotReady \<and> ev = CudaStreamQuery strm e)
            \<or> st = commStatusError
                \<and> (\<exists>r a. r \<noteq> ncclSuccess \<and> ev = NcclCommGetAsyncError (nccl_comm c) r a)
            \<or> st = commStatusAbort
                \<and> (\<exists>b. b \<noteq> ncclSuccess \<and> ev = NcclCommAbort (nccl_comm c) b))"
            by blast
          moreover from this c1 c2 c3 have
            "calls d' = calls d @ ([CudaStreamQuery strm e,
                NcclCommGetAsyncError (nccl_comm c) r a,
                NcclCommAbort (nccl_comm c) b] @ evs) @ [ev]"
            by simp
          ultimately show ?thesis by blast
        qed
      qed
    qed
  qed
qed

text \<open>
  C7: the results of \<open>syncStream\<close>. Let the stream report pending \<open>N\<close> times, and let
  each of these rounds go on: the asynchronous error is retrieved, and where it is a fault
  (the list \<open>fs\<close> holds what each round retrieved) the abort succeeds. Then what the
  next answers are decides the result, and the polls made are the first \<open>N\<close> and one more:
  \<^item> the stream query reports completion: \<open>Success\<close>; it reports another error: \<open>Error\<close>;
  \<^item> the stream is pending and retrieving the asynchronous error fails: \<open>Error\<close>;
  \<^item> the stream is pending, a fault is retrieved and the abort fails: \<open>Abort\<close>.
  Conversely, whenever \<open>syncStream\<close> returns, its last call into the device side was one
  of these and decides the result; so it returns \<open>Abort\<close> exactly when its last call is an
  abort that failed.
\<close>

theorem syncStream_results:
  assumes "stream_queries d = replicate (length fs) cudaErrorNotReady @ e # qs"
    and "async_errors d = map (Pair ncclSuccess) fs @ as"
    and "abort_results d =
           replicate (length (filter (\<lambda>a. a \<noteq> ncclSuccess) fs)) ncclSuccess @ bs"
  shows
    "(e \<noteq> cudaErrorNotReady \<longrightarrow>
        syncStream c strm d =
          Some (if e = cudaSuccess then commStatusSuccess else commStatusError,
                d\<lparr>stream_queries := qs, async_errors := as, abort_results := bs,
                  calls := calls d @
                    concat (map (\<lambda>a.
                       [CudaStreamQuery strm cudaErrorNotReady,
                        NcclCommGetAsyncError (nccl_comm c) ncclSuccess a]
                       @ (if a \<noteq> ncclSuccess then [NcclCommAbort (nccl_comm c) ncclSuccess]
                          else [])) fs)
                    @ [CudaStreamQuery strm e]\<rparr>))
   \<and> (e = cudaErrorNotReady \<and> as = (r, a) # as' \<and> r \<noteq> ncclSuccess \<longrightarrow>
        syncStream c strm d =
          Some (commStatusError,
                d\<lparr>stream_queries := qs, async_errors := as', abort_results := bs,
                  calls := calls d @
                    concat (map (\<lambda>a.
                       [CudaStreamQuery strm cudaErrorNotReady,
                        NcclCommGetAsyncError (nccl_comm c) ncclSuccess a]
                       @ (if a \<noteq> ncclSuccess then [NcclCommAbort (nccl_comm c) ncclSuccess]
                          else [])) fs)
                    @ [CudaStreamQuery strm cudaErrorNotReady,
                       NcclCommGetAsyncError (nccl_comm c) r a]\<rparr>))
   \<and> (e = cudaErrorNotReady \<and> as = (ncclSuccess, a) # as' \<and> a \<noteq> ncclSuccess
        \<and> bs = b # bs' \<and> b \<noteq> ncclSuccess \<longrightarrow>
        syncStream c strm d =
          Some (commStatusAbort,
                d\<lparr>stream_queries := qs, async_errors := as', abort_results := bs',
                  calls := calls d @
                    concat (map (\<lambda>a.
                       [CudaStreamQuery strm cudaErrorNotReady,
                        NcclCommGetAsyncError (nccl_comm c) ncclSuccess a]
                       @ (if a \<noteq> ncclSuccess then [NcclCommAbort (nccl_comm c) ncclSuccess]
                          else [])) fs)
                    @ [CudaStreamQuery strm cudaErrorNotReady,
                       NcclCommGetAsyncError (nccl_comm c) ncclSuccess a,
                       NcclCommAbort (nccl_comm c) b]\<rparr>))
   \<and> (syncStream c strm d = Some (st, d') \<longrightarrow>
        (\<exists>evs ev. calls d' = calls d @ evs @ [ev]
           \<and> (st = commStatusSuccess \<and> ev = CudaStreamQuery strm cudaSuccess
              \<or> st = commStatusError
                  \<and> (\<exists>x. x \<noteq> cudaSuccess \<and> x \<noteq> cudaErrorNotReady
                           \<and> ev = CudaStreamQuery strm x)
              \<or> st = commStatusError
                  \<and> (\<exists>x y. x \<noteq> ncclSuccess \<and> ev = NcclCommGetAsyncError (nccl_comm c) x y)
              \<or> st = commStatusAbort
                  \<and> (\<exists>x. x \<noteq> ncclSuccess \<and> ev = NcclCommAbort (nccl_comm c) x))))"
proof -
  let ?pending = "concat (map (\<lambda>a.
                       [CudaStreamQuery strm cudaErrorNotReady,
                        NcclCommGetAsyncError (nccl_comm c) ncclSuccess a]
                       @ (if a \<noteq> ncclSuccess then [NcclCommAbort (nccl_comm c) ncclSuccess]
                          else [])) fs)"
  let ?d1 = "d\<lparr>stream_queries := e # qs, async_errors := as, abort_results := bs,
               calls := calls d @ ?pending\<rparr>"
  have p: "syncStream c strm d = syncStream c strm ?d1"
    using assms by (rule syncStream_pending)
  have 1: "e \<noteq> cudaErrorNotReady \<Longrightarrow> syncStream c strm ?d1 =
          Some (if e = cudaSuccess then commStatusSuccess else commStatusError,
                d\<lparr>stream_queries := qs, async_errors := as, abort_results := bs,
                  calls := calls d @ ?pending @ [CudaStreamQuery strm e]\<rparr>)"
    using syncStream_done [of ?d1 e qs c strm] by simp
  have 2: "e = cudaErrorNotReady \<and> as = (r, a) # as' \<and> r \<noteq> ncclSuccess \<Longrightarrow>
        syncStream c strm ?d1 =
          Some (commStatusError,
                d\<lparr>stream_queries := qs, async_errors := as', abort_results := bs,
                  calls := calls d @ ?pending
                    @ [CudaStreamQuery strm cudaErrorNotReady,
                       NcclCommGetAsyncError (nccl_comm c) r a]\<rparr>)"
    using syncStream_async_failed [of ?d1 qs r a as' c strm] by simp
  have 3: "e = cudaErrorNotReady \<and> as = (ncclSuccess, a) # as' \<and> a \<noteq> ncclSuccess
        \<and> bs = b # bs' \<and> b \<noteq> ncclSuccess \<Longrightarrow>
        syncStream c strm ?d1 =
          Some (commStatusAbort,
                d\<lparr>stream_queries := qs, async_errors := as', abort_results := bs',
                  calls := calls d @ ?pending
                    @ [CudaStreamQuery strm cudaErrorNotReady,
                       NcclCommGetAsyncError (nccl_comm c) ncclSuccess a,
                       NcclCommAbort (nccl_comm c) b]\<rparr>)"
    using syncStream_abort_failed [of ?d1 qs a as' b bs' c strm] by simp
  note 4 = syncStream_last_call [of c strm d st d']
  show ?thesis
    unfolding p using 1 2 3 4 [unfolded p] by blast
qed

theorem syncStream_results_witness:
  "syncStream mock_comms 1 mock_device =
     Some (commStatusSuccess,
           mock_device\<lparr>stream_queries := [], async_errors := [],
             calls := [CudaStreamQuery 1 cudaErrorNotReady,
                       NcclCommGetAsyncError 100 ncclSuccess ncclSuccess,
                       CudaStreamQuery 1 cudaErrorNotReady,
                       NcclCommGetAsyncError 100 ncclSuccess ncclSuccess,
                       CudaStreamQuery 1 cudaSuccess]\<rparr>)
   \<and> syncStream mock_comms 1 mock_device_aborting =
     Some (commStatusAbort,
           mock_device_aborting\<lparr>stream_queries := [], async_errors := [],
             abort_results := [],
             calls := [CudaStreamQuery 1 cudaErrorNotReady,
                       NcclCommGetAsyncError 100 ncclSuccess (ncclFailure 5),
                       NcclCommAbort 100 ncclSuccess,
                       CudaStreamQuery 1 cudaErrorNotReady,
                       NcclCommGetAsyncError 100 ncclSuccess (ncclFailure 5),
                       NcclCommAbort 100 (ncclFailure 6)]\<rparr>)"
proof -
  have 1: "stream_queries mock_device =
             replicate (length [ncclSuccess, ncclSuccess]) cudaErrorNotReady @ cudaSuccess # []"
    "async_errors mock_device = map (Pair ncclSuccess) [ncclSuccess, ncclSuccess] @ []"
    "abort_results mock_device =
       replicate (length (filter (\<lambda>a. a \<noteq> ncclSuccess) [ncclSuccess, ncclSuccess]))
         ncclSuccess @ []"
    by (simp_all add: mock_device_def)
  have 2: "stream_queries mock_device_aborting =
             replicate (length [ncclFailure 5]) cudaErrorNotReady @ cudaErrorNotReady # []"
    "async_errors mock_device_aborting =
       map (Pair ncclSuccess) [ncclFailure 5] @ [(ncclSuccess, ncclFailure 5)]"
    "abort_results mock_device_aborting =
       replicate (length (filter (\<lambda>a. a \<noteq> ncclSuccess) [ncclFailure 5])) ncclSuccess
         @ [ncclFailure 6]"
    by (simp_all add: mock_device_aborting_def mock_device_def)
  have n: "nccl_comm mock_comms = 100"
    by (simp add: mock_comms_def std_comms_p2p_def)
  from syncStream_results [OF 1, where c = mock_comms and strm = 1, THEN conjunct1]
       syncStream_results [OF 2, where c = mock_comms and strm = 1 and a = "ncclFailure 5"
         and as' = "[]" and b = "ncclFailure 6" and bs' = "[]",
         THEN conjunct2, THEN conjunct2, THEN conjunct1]
  show ?thesis
    by (simp add: n mock_device_def mock_device_aborting_def)
qed


section \<open>The sequence of barrier\<close>

text \<open>
  C6, as amended: \<open>barrier\<close> sets the scratch send buffer and the scratch receive buffer
  to the byte 1 on the communicator's stream, issues a sum all-reduce of one \<open>int\<close> over
  them on that stream and then waits with \<open>syncStream\<close>, each step only when the one
  before reported success; if the wait does not report \<open>Success\<close>, \<open>barrier\<close> fails. A
  memset or the all-reduce that reports a failure ends \<open>barrier\<close> with that failure, and
  the later steps are not performed.
\<close>

theorem barrier_sequence:
  "(memset_results d = cudaSuccess # cudaSuccess # ms \<and> collective_results d = ncclSuccess # rs
      \<longrightarrow>
      barrier c d =
        (case syncStream c (stream c)
                (d\<lparr>memset_results := ms, collective_results := rs,
                   calls := calls d @
                     [CudaMemsetAsync (sendbuff c) 1 4 (stream c) cudaSuccess,
                      CudaMemsetAsync (recvbuff c) 1 4 (stream c) cudaSuccess,
                      NcclAllReduce (sendbuff c) (recvbuff c) 1 ncclInt ncclSum (nccl_comm c)
                        (stream c) ncclSuccess]\<rparr>) of
           None \<Rightarrow> None
         | Some (st, d') \<Rightarrow>
             Some (if st = commStatusSuccess then Inr () else Inl SyncStreamFailed, d')))
   \<and> (memset_results d = e # ms \<and> e \<noteq> cudaSuccess \<longrightarrow>
      barrier c d =
        Some (Inl (CudaCheckFailed e),
              d\<lparr>memset_results := ms,
                calls := calls d @ [CudaMemsetAsync (sendbuff c) 1 4 (stream c) e]\<rparr>))
   \<and> (memset_results d = cudaSuccess # e # ms \<and> e \<noteq> cudaSuccess \<longrightarrow>
      barrier c d =
        Some (Inl (CudaCheckFailed e),
              d\<lparr>memset_results := ms,
                calls := calls d @
                  [CudaMemsetAsync (sendbuff c) 1 4 (stream c) cudaSuccess,
                   CudaMemsetAsync (recvbuff c) 1 4 (stream c) e]\<rparr>))
   \<and> (memset_results d = cudaSuccess # cudaSuccess # ms \<and> collective_results d = r # rs
      \<and> r \<noteq> ncclSuccess \<longrightarrow>
      barrier c d =
        Some (Inl (NcclCheckFailed r),
              d\<lparr>memset_results := ms, collective_results := rs,
                calls := calls d @
                  [CudaMemsetAsync (sendbuff c) 1 4 (stream c) cudaSuccess,
                   CudaMemsetAsync (recvbuff c) 1 4 (stream c) cudaSuccess,
                   NcclAllReduce (sendbuff c) (recvbuff c) 1 ncclInt ncclSum (nccl_comm c)
                     (stream c) r]\<rparr>))"
  by (auto simp: barrier_def CUDA_CHECK_def cudaMemsetAsync_def allreduce_def NCCL_CHECK_def
        nccl_collective_def split: option.splits)

theorem barrier_sequence_witness:
  "barrier mock_comms mock_device =
     Some (Inr (),
           mock_device\<lparr>memset_results := [], collective_results := [ncclSuccess],
             stream_queries := [], async_errors := [],
             calls := [CudaMemsetAsync 2 1 4 1 cudaSuccess,
                       CudaMemsetAsync 3 1 4 1 cudaSuccess,
                       NcclAllReduce 2 3 1 ncclInt ncclSum 100 1 ncclSuccess,
                       CudaStreamQuery 1 cudaErrorNotReady,
                       NcclCommGetAsyncError 100 ncclSuccess ncclSuccess,
                       CudaStreamQuery 1 cudaErrorNotReady,
                       NcclCommGetAsyncError 100 ncclSuccess ncclSuccess,
                       CudaStreamQuery 1 cudaSuccess]\<rparr>)
   \<and> barrier mock_comms mock_device_failing =
     Some (Inl (CudaCheckFailed (cudaErrorOther 2)),
           mock_device_failing\<lparr>memset_results := [cudaSuccess],
             calls := [CudaMemsetAsync 2 1 4 1 (cudaErrorOther 2)]\<rparr>)"
proof -
  have 1: "memset_results mock_device = cudaSuccess # cudaSuccess # []
           \<and> collective_results mock_device = ncclSuccess # [ncclSuccess]"
    by (simp add: mock_device_def)
  have 2: "memset_results mock_device_failing = cudaErrorOther 2 # [cudaSuccess]
           \<and> cudaErrorOther 2 \<noteq> cudaSuccess"
    by (simp add: mock_device_failing_def mock_device_def)
  from barrier_sequence [where d = mock_device and ms = "[]" and rs = "[ncclSuccess]"
         and c = mock_comms, THEN conjunct1, rule_format, OF 1]
       barrier_sequence [where d = mock_device_failing and c = mock_comms
         and e = "cudaErrorOther 2" and ms = "[cudaSuccess]",
         THEN conjunct2, THEN conjunct1, rule_format, OF 2]
  show ?thesis
    by (simp add: mock_device_def mock_device_failing_def mock_comms_def std_comms_p2p_def
          syncStream.simps cudaStreamQuery_def ncclCommGetAsyncError_def)
qed

text \<open>
  C6 as stated fails: when the first memset reports a failure, \<open>barrier\<close> fails after this
  single call; no all-reduce is issued and the stream is never waited for.
\<close>

theorem barrier_stops_counterexample:
  "barrier mock_comms mock_device_failing =
     Some (Inl (CudaCheckFailed (cudaErrorOther 2)),
           mock_device_failing\<lparr>memset_results := [cudaSuccess],
             calls := [CudaMemsetAsync 2 1 4 1 (cudaErrorOther 2)]\<rparr>)
   \<and> calls (mock_device_failing\<lparr>memset_results := [cudaSuccess],
             calls := [CudaMemsetAsync 2 1 4 1 (cudaErrorOther 2)]\<rparr>)
       = [CudaMemsetAsync 2 1 4 1 (cudaErrorOther 2)]"
  by (simp add: barrier_def CUDA_CHECK_def cudaMemsetAsync_def mock_device_def
        mock_device_failing_def mock_comms_def std_comms_p2p_def)

end
